theory Spec2Isabelle
  imports Main
begin

section \<open>Condition-variable odd/even printer (09\_Print\_Odd\_even.c)\<close>

text \<open>
  The two participants of the program: thread \<open>t1\<close> runs \<open>print_odd\<close>, thread
  \<open>t2\<close> runs \<open>print_even\<close>.
\<close>

datatype tid = OddT | EvenT

fun other :: "tid \<Rightarrow> tid" where
  "other OddT = EvenT"
| "other EvenT = OddT"

text \<open>
  Control points of one thread function, named after the statement that is executed next.
  \<open>Waiting\<close> is a thread blocked inside \<open>pthread_cond_wait\<close> (the mutex is released);
  \<open>Woken\<close> is a thread that left the wait queue and has to take the mutex again before
  \<open>pthread_cond_wait\<close> returns.
\<close>

datatype pc =
    AtLock | AtGuard | Waiting | Woken | AtTest | AtExitUnlock
  | AtPrint | AtIncr | AtSetTurn | AtSignal | AtUnlock | Returned

text \<open>
  What the program does that can be observed from outside the shared variables: a line
  printed by a thread, with its number, and a notification on the condition. The program
  calls \<open>pthread_cond_signal\<close> only; \<open>CondBroadcast\<close> stands for a call of
  \<open>pthread_cond_broadcast\<close>, which no statement below produces.
\<close>

datatype event = Printed tid int | CondSignal tid | CondBroadcast tid

text \<open>
  The file-scope variables \<open>counter\<close>, \<open>lock\<close>, \<open>cond\<close> (its wait queue is the set of
  threads at \<open>Waiting\<close>) and \<open>is_odd_turn\<close>, one control point per thread, the events so
  far in the order they happened, and the number of spurious wake-ups the environment may
  still deliver. \<open>counter\<close> is an \<open>int\<close> in the source and an unbounded integer
  here: it stays between 1 and \<open>MAX + 1\<close> (claim C6), so it cannot overflow.
\<close>

record state =
  counter :: int
  is_odd_turn :: bool
  lock :: "tid option"
  pc_odd :: pc
  pc_even :: pc
  trace :: "event list"
  spurious :: nat

text \<open>
  The state in which \<open>main\<close> has created both threads and neither has executed a
  statement; \<open>k\<close> spurious wake-ups may happen.
\<close>

definition init :: "nat \<Rightarrow> state" where
  "init k = \<lparr> counter = 1, is_odd_turn = True, lock = None,
             pc_odd = AtLock, pc_even = AtLock, trace = [], spurious = k \<rparr>"

definition pc_of :: "tid \<Rightarrow> state \<Rightarrow> pc" where
  "pc_of t s = (case t of OddT \<Rightarrow> pc_odd s | EvenT \<Rightarrow> pc_even s)"

definition set_pc :: "tid \<Rightarrow> pc \<Rightarrow> state \<Rightarrow> state" where
  "set_pc t p s = (case t of OddT \<Rightarrow> s\<lparr>pc_odd := p\<rparr> | EvenT \<Rightarrow> s\<lparr>pc_even := p\<rparr>)"

text \<open>
  \<open>pthread_cond_signal(&cond)\<close> called by thread \<open>t\<close>: a thread blocked on the
  condition, if there is one, leaves the wait queue.
\<close>

definition cond_signal :: "tid \<Rightarrow> state \<Rightarrow> state" where
  "cond_signal t s =
     (let s' = s\<lparr>trace := trace s @ [CondSignal t]\<rparr>
      in if pc_odd s' = Waiting then s'\<lparr>pc_odd := Woken\<rparr>
         else if pc_even s' = Waiting then s'\<lparr>pc_even := Woken\<rparr>
         else s')"

text \<open>
  One statement of \<open>print_odd\<close> (lines 13 to 33), with \<open>MAX\<close> as the parameter
  \<open>lim\<close>. \<open>None\<close>: the thread cannot move (mutex taken, blocked on the condition,
  or returned).
\<close>

definition print_odd :: "int \<Rightarrow> state \<Rightarrow> state option" where
  "print_odd lim s =
     (case pc_odd s of
        AtLock \<Rightarrow>
          if lock s = None then Some (s\<lparr>lock := Some OddT, pc_odd := AtGuard\<rparr>) else None
      | AtGuard \<Rightarrow>
          if \<not> is_odd_turn s \<and> counter s \<le> lim
          then Some (s\<lparr>lock := None, pc_odd := Waiting\<rparr>)
          else Some (s\<lparr>pc_odd := AtTest\<rparr>)
      | Waiting \<Rightarrow> None
      | Woken \<Rightarrow>
          if lock s = None then Some (s\<lparr>lock := Some OddT, pc_odd := AtGuard\<rparr>) else None
      | AtTest \<Rightarrow>
          if counter s > lim then Some (s\<lparr>pc_odd := AtExitUnlock\<rparr>)
          else Some (s\<lparr>pc_odd := AtPrint\<rparr>)
      | AtExitUnlock \<Rightarrow> Some (s\<lparr>lock := None, pc_odd := Returned\<rparr>)
      | AtPrint \<Rightarrow>
          Some (s\<lparr>trace := trace s @ [Printed OddT (counter s)], pc_odd := AtIncr\<rparr>)
      | AtIncr \<Rightarrow> Some (s\<lparr>counter := counter s + 1, pc_odd := AtSetTurn\<rparr>)
      | AtSetTurn \<Rightarrow> Some (s\<lparr>is_odd_turn := False, pc_odd := AtSignal\<rparr>)
      | AtSignal \<Rightarrow> Some ((cond_signal OddT s)\<lparr>pc_odd := AtUnlock\<rparr>)
      | AtUnlock \<Rightarrow> Some (s\<lparr>lock := None, pc_odd := AtLock\<rparr>)
      | Returned \<Rightarrow> None)"

text \<open>One statement of \<open>print_even\<close> (lines 35 to 55).\<close>

definition print_even :: "int \<Rightarrow> state \<Rightarrow> state option" where
  "print_even lim s =
     (case pc_even s of
        AtLock \<Rightarrow>
          if lock s = None then Some (s\<lparr>lock := Some EvenT, pc_even := AtGuard\<rparr>) else None
      | AtGuard \<Rightarrow>
          if is_odd_turn s \<and> counter s \<le> lim
          then Some (s\<lparr>lock := None, pc_even := Waiting\<rparr>)
          else Some (s\<lparr>pc_even := AtTest\<rparr>)
      | Waiting \<Rightarrow> None
      | Woken \<Rightarrow>
          if lock s = None then Some (s\<lparr>lock := Some EvenT, pc_even := AtGuard\<rparr>) else None
      | AtTest \<Rightarrow>
          if counter s > lim then Some (s\<lparr>pc_even := AtExitUnlock\<rparr>)
          else Some (s\<lparr>pc_even := AtPrint\<rparr>)
      | AtExitUnlock \<Rightarrow> Some (s\<lparr>lock := None, pc_even := Returned\<rparr>)
      | AtPrint \<Rightarrow>
          Some (s\<lparr>trace := trace s @ [Printed EvenT (counter s)], pc_even := AtIncr\<rparr>)
      | AtIncr \<Rightarrow> Some (s\<lparr>counter := counter s + 1, pc_even := AtSetTurn\<rparr>)
      | AtSetTurn \<Rightarrow> Some (s\<lparr>is_odd_turn := True, pc_even := AtSignal\<rparr>)
      | AtSignal \<Rightarrow> Some ((cond_signal EvenT s)\<lparr>pc_even := AtUnlock\<rparr>)
      | AtUnlock \<Rightarrow> Some (s\<lparr>lock := None, pc_even := AtLock\<rparr>)
      | Returned \<Rightarrow> None)"

text \<open>
  A spurious wake-up: a thread blocked on the condition leaves the wait queue although
  nobody signalled.
\<close>

definition spurious_wakeup :: "tid \<Rightarrow> state \<Rightarrow> state option" where
  "spurious_wakeup t s =
     (if pc_of t s = Waiting \<and> 0 < spurious s
      then Some ((set_pc t Woken s)\<lparr>spurious := spurious s - 1\<rparr>)
      else None)"

text \<open>
  A step of the program: a thread executes its next statement, or a blocked thread is
  woken spuriously. A schedule is a list of such steps; \<open>exec\<close> runs it and is \<open>None\<close>
  when the schedule asks for a step that cannot be taken.
\<close>

datatype action = Run tid | Spurious tid

definition step :: "int \<Rightarrow> action \<Rightarrow> state \<Rightarrow> state option" where
  "step lim a s =
     (case a of
        Run OddT \<Rightarrow> print_odd lim s
      | Run EvenT \<Rightarrow> print_even lim s
      | Spurious t \<Rightarrow> spurious_wakeup t s)"

fun exec :: "int \<Rightarrow> action list \<Rightarrow> state \<Rightarrow> state option" where
  "exec lim [] s = Some s"
| "exec lim (a # as) s = (case step lim a s of None \<Rightarrow> None | Some s' \<Rightarrow> exec lim as s')"

text \<open>
  The states of all interleavings of the two threads that \<open>main\<close> creates, for every
  number of spurious wake-ups.
\<close>

inductive reachable :: "int \<Rightarrow> state \<Rightarrow> bool" for lim :: int where
  reach_init: "reachable lim (init k)"
| reach_step: "reachable lim s \<Longrightarrow> step lim a s = Some s' \<Longrightarrow> reachable lim s'"

text \<open>\<open>pthread_join\<close> of both threads in \<open>main\<close> returns once both have returned.\<close>

definition joined :: "state \<Rightarrow> bool" where
  "joined s = (pc_odd s = Returned \<and> pc_even s = Returned)"

text \<open>The macro \<open>MAX\<close> of the source.\<close>

definition MAX_val :: int where
  "MAX_val = 100"

text \<open>The numbers printed so far, each with the thread that printed it.\<close>

fun outputs :: "event list \<Rightarrow> (tid \<times> int) list" where
  "outputs [] = []"
| "outputs (Printed t v # es) = (t, v) # outputs es"
| "outputs (_ # es) = outputs es"

text \<open>Round-robin order over the two roles: the odd role owns the odd positions.\<close>

definition role_of :: "int \<Rightarrow> tid" where
  "role_of i = (if i mod 2 = 1 then OddT else EvenT)"

definition round_robin :: "int \<Rightarrow> (tid \<times> int) list" where
  "round_robin n = map (\<lambda>i. (role_of i, i)) [1..n]"

text \<open>The turn flag, read as "thread \<open>t\<close> is the one allowed to act".\<close>

definition my_turn :: "tid \<Rightarrow> state \<Rightarrow> bool" where
  "my_turn t s = (case t of OddT \<Rightarrow> is_odd_turn s | EvenT \<Rightarrow> \<not> is_odd_turn s)"

subsection \<open>Invariant and progress measure\<close>

text \<open>
  Step \<open>i\<close> of the program, seen from outside: the owner of position \<open>i\<close> prints
  \<open>i\<close> and then calls \<open>pthread_cond_signal\<close>.
\<close>

definition step_events :: "int \<Rightarrow> event list" where
  "step_events i = [Printed (role_of i) i, CondSignal (role_of i)]"

definition full_trace :: "int \<Rightarrow> event list" where
  "full_trace n = concat (map step_events [1..n])"

text \<open>The control points between \<open>pthread_mutex_lock\<close> and \<open>pthread_mutex_unlock\<close>.\<close>

definition in_cs :: "pc \<Rightarrow> bool" where
  "in_cs p = (p \<noteq> AtLock \<and> p \<noteq> Waiting \<and> p \<noteq> Woken \<and> p \<noteq> Returned)"

definition inv_thread :: "int \<Rightarrow> tid \<Rightarrow> state \<Rightarrow> bool" where
  "inv_thread lim t s =
     ((in_cs (pc_of t s) \<longleftrightarrow> lock s = Some t)
      \<and> (pc_of t s = AtTest \<longrightarrow> my_turn t s \<or> lim < counter s)
      \<and> (pc_of t s = AtExitUnlock \<longrightarrow> lim < counter s)
      \<and> (pc_of t s = Returned \<longrightarrow> lim < counter s)
      \<and> (pc_of t s = AtPrint \<longrightarrow> my_turn t s \<and> counter s \<le> lim)
      \<and> (pc_of t s = AtIncr \<longrightarrow>
            my_turn t s \<and> counter s \<le> lim \<and> role_of (counter s) = t
            \<and> trace s = full_trace (counter s - 1) @ [Printed t (counter s)])
      \<and> (pc_of t s = AtSetTurn \<longrightarrow>
            my_turn t s \<and> 2 \<le> counter s \<and> role_of (counter s - 1) = t
            \<and> trace s = full_trace (counter s - 2) @ [Printed t (counter s - 1)])
      \<and> (pc_of t s = AtSignal \<longrightarrow>
            my_turn (other t) s \<and> 2 \<le> counter s \<and> role_of (counter s - 1) = t
            \<and> trace s = full_trace (counter s - 2) @ [Printed t (counter s - 1)])
      \<and> (pc_of t s = Waiting \<longrightarrow>
            pc_of (other t) s = AtSetTurn \<or> pc_of (other t) s = AtSignal
            \<or> (\<not> my_turn t s \<and> counter s \<le> lim)))"

definition inv :: "int \<Rightarrow> state \<Rightarrow> bool" where
  "inv lim s =
     (1 \<le> counter s \<and> counter s \<le> lim + 1
      \<and> inv_thread lim OddT s \<and> inv_thread lim EvenT s
      \<and> ((\<forall>t. pc_of t s \<noteq> AtIncr \<and> pc_of t s \<noteq> AtSetTurn \<and> pc_of t s \<noteq> AtSignal) \<longrightarrow>
            (is_odd_turn s \<longleftrightarrow> role_of (counter s) = OddT)
            \<and> trace s = full_trace (counter s - 1)))"

text \<open>
  A bound on the number of statements still to be executed: every statement of either
  thread and every spurious wake-up lowers it.
\<close>

definition weight :: "pc \<Rightarrow> nat" where
  "weight p =
     (case p of
        Returned \<Rightarrow> 0 | AtExitUnlock \<Rightarrow> 1 | AtIncr \<Rightarrow> 2 | AtPrint \<Rightarrow> 3 | AtTest \<Rightarrow> 4
      | AtGuard \<Rightarrow> 5 | Waiting \<Rightarrow> 3 | Woken \<Rightarrow> 6 | AtLock \<Rightarrow> 6 | AtUnlock \<Rightarrow> 7
      | AtSignal \<Rightarrow> 11 | AtSetTurn \<Rightarrow> 12)"

definition potential :: "int \<Rightarrow> state \<Rightarrow> nat" where
  "potential lim s =
     11 * nat (lim + 1 - counter s) + 4 * spurious s + weight (pc_odd s) + weight (pc_even s)"

subsection \<open>The order the specification asks for\<close>

text \<open>
  Round-robin over roles \<open>0, \<dots>, N - 1\<close>, cut after \<open>limit\<close> entries: entry \<open>k\<close>
  (counted from 0) belongs to role \<open>k mod N\<close> and carries the step index \<open>k + 1\<close>.
  In the program the odd thread is role 0 and the even thread is role 1.
\<close>

definition cyclic_order :: "nat \<Rightarrow> nat \<Rightarrow> (nat \<times> nat) list" where
  "cyclic_order N limit = map (\<lambda>k. (k mod N, Suc k)) [0..<limit]"

fun role_index :: "tid \<Rightarrow> nat" where
  "role_index OddT = 0"
| "role_index EvenT = 1"

definition recorded :: "state \<Rightarrow> (nat \<times> nat) list" where
  "recorded s = map (\<lambda>(t, v). (role_index t, nat v)) (outputs (trace s))"

text \<open>
  The notifications issued after the number \<open>lim\<close> has been printed, that is on the
  transition into the terminal state, and the reading "exactly one of them is a
  notify-all".
\<close>

fun is_broadcast :: "event \<Rightarrow> bool" where
  "is_broadcast (CondBroadcast t) = True"
| "is_broadcast _ = False"

fun is_print_of :: "int \<Rightarrow> event \<Rightarrow> bool" where
  "is_print_of v (Printed t w) = (w = v)"
| "is_print_of v _ = False"

definition after_terminal :: "int \<Rightarrow> event list \<Rightarrow> event list" where
  "after_terminal lim es = tl (dropWhile (\<lambda>e. \<not> is_print_of lim e) es)"

definition notify_all_on_terminal :: "int \<Rightarrow> event list \<Rightarrow> bool" where
  "notify_all_on_terminal lim es = (length (filter is_broadcast (after_terminal lim es)) = 1)"

subsection \<open>Concrete schedules\<close>

text \<open>
  Each thread runs a whole loop iteration (eight statements) when it is its turn; after
  fifty rounds both find \<open>counter > MAX\<close> and return.
\<close>

definition sched_full :: "action list" where
  "sched_full =
     concat (replicate 50 (replicate 8 (Run OddT) @ replicate 8 (Run EvenT)))
     @ replicate 4 (Run OddT) @ replicate 4 (Run EvenT)"

text \<open>
  The even thread starts and blocks; from then on each thread, after its own iteration,
  takes the mutex again and blocks on the condition until the other one signals. When the
  even thread prints 100 and signals, the odd thread is blocked.
\<close>

definition sched_blocking :: "action list" where
  "sched_blocking =
     [Run EvenT, Run EvenT]
     @ concat (replicate 50 (replicate 10 (Run OddT) @ replicate 10 (Run EvenT)))
     @ [Run EvenT, Run EvenT] @ replicate 4 (Run OddT)"

text \<open>The even thread blocks, is woken spuriously and evaluates its guard again.\<close>

definition sched_even_waits :: "action list" where
  "sched_even_waits = [Run EvenT, Run EvenT]"

definition sched_spurious :: "action list" where
  "sched_spurious = [Run EvenT, Run EvenT, Spurious EvenT, Run EvenT]"

text \<open>The odd thread is about to print 1.\<close>

definition sched_odd_prints :: "action list" where
  "sched_odd_prints = [Run OddT, Run OddT, Run OddT]"

text \<open>With \<open>MAX = 0\<close> both threads find \<open>counter > MAX\<close> at once and return.\<close>

definition sched_zero :: "action list" where
  "sched_zero = replicate 4 (Run OddT) @ replicate 4 (Run EvenT)"


text \<open>
  The first 998 statements of \<open>sched_blocking\<close>: the even thread has printed 100 and
  incremented the counter, and is about to signal.
\<close>

definition sched_to_last_signal :: "action list" where
  "sched_to_last_signal = take 998 sched_blocking"


section \<open>Polling odd/even printer (10\_Print\_Odd\_even.c)\<close>

text \<open>
  Control points of \<open>print_numbers\<close> (lines 9 to 29), named after the statement executed
  next: \<open>pthread_mutex_lock\<close>, the test \<open>counter > MAX\<close>, the unlock before
  \<open>break\<close>, the parity test, \<open>printf\<close>, \<open>counter++\<close>, the unlock at the end of
  the loop body, and \<open>return\<close>.
\<close>

datatype bpc = BLock | BTest | BExitUnlock | BCond | BPrint | BIncr | BUnlock | BReturned

text \<open>
  The file-scope variables \<open>counter\<close> and \<open>lock\<close>, one control point per thread, and
  the lines printed so far (thread label and number).
\<close>

record bstate =
  bcounter :: int
  block :: "tid option"
  bpc_odd :: bpc
  bpc_even :: bpc
  printed :: "(tid \<times> int) list"

text \<open>The state in which \<open>main\<close> has created both threads.\<close>

definition binit :: bstate where
  "binit = \<lparr> bcounter = 1, block = None, bpc_odd = BLock, bpc_even = BLock, printed = [] \<rparr>"

definition bpc_of :: "tid \<Rightarrow> bstate \<Rightarrow> bpc" where
  "bpc_of t s = (case t of OddT \<Rightarrow> bpc_odd s | EvenT \<Rightarrow> bpc_even s)"

definition set_bpc :: "tid \<Rightarrow> bpc \<Rightarrow> bstate \<Rightarrow> bstate" where
  "set_bpc t p s = (case t of OddT \<Rightarrow> s\<lparr>bpc_odd := p\<rparr> | EvenT \<Rightarrow> s\<lparr>bpc_even := p\<rparr>)"

text \<open>
  The operator \<open>%\<close> of C on \<open>int\<close>: the remainder has the sign of the dividend.
\<close>

definition c_rem :: "int \<Rightarrow> int \<Rightarrow> int" where
  "c_rem a b = sgn a * (\<bar>a\<bar> mod \<bar>b\<bar>)"

text \<open>
  \<open>main\<close> passes \<open>&odd\<close> (1) to the first thread and \<open>&even\<close> (0) to the second;
  \<open>printf\<close> labels a line "Odd" when \<open>is_odd\<close> is not zero.
\<close>

definition thread_arg :: "tid \<Rightarrow> int" where
  "thread_arg t = (case t of OddT \<Rightarrow> 1 | EvenT \<Rightarrow> 0)"

definition label :: "int \<Rightarrow> tid" where
  "label is_odd = (if is_odd \<noteq> 0 then OddT else EvenT)"

text \<open>
  One statement of \<open>print_numbers\<close> executed by thread \<open>t\<close>, with \<open>MAX\<close> as the
  parameter \<open>lim\<close>. \<open>None\<close>: the thread cannot move (mutex taken, or returned).
\<close>

definition print_numbers :: "int \<Rightarrow> tid \<Rightarrow> bstate \<Rightarrow> bstate option" where
  "print_numbers lim t s =
     (let is_odd = thread_arg t in
      case bpc_of t s of
        BLock \<Rightarrow>
          if block s = None then Some (set_bpc t BTest (s\<lparr>block := Some t\<rparr>)) else None
      | BTest \<Rightarrow>
          if bcounter s > lim then Some (set_bpc t BExitUnlock s)
          else Some (set_bpc t BCond s)
      | BExitUnlock \<Rightarrow> Some (set_bpc t BReturned (s\<lparr>block := None\<rparr>))
      | BCond \<Rightarrow>
          if (c_rem (bcounter s) 2 = 1 \<and> is_odd \<noteq> 0) \<or> (c_rem (bcounter s) 2 = 0 \<and> \<not> is_odd \<noteq> 0)
          then Some (set_bpc t BPrint s)
          else Some (set_bpc t BUnlock s)
      | BPrint \<Rightarrow>
          Some (set_bpc t BIncr (s\<lparr>printed := printed s @ [(label is_odd, bcounter s)]\<rparr>))
      | BIncr \<Rightarrow> Some (set_bpc t BUnlock (s\<lparr>bcounter := bcounter s + 1\<rparr>))
      | BUnlock \<Rightarrow> Some (set_bpc t BLock (s\<lparr>block := None\<rparr>))
      | BReturned \<Rightarrow> None)"

text \<open>A schedule is the list of the threads that execute the next statement.\<close>

fun bexec :: "int \<Rightarrow> tid list \<Rightarrow> bstate \<Rightarrow> bstate option" where
  "bexec lim [] s = Some s"
| "bexec lim (t # ts) s =
     (case print_numbers lim t s of None \<Rightarrow> None | Some s' \<Rightarrow> bexec lim ts s')"

inductive breachable :: "int \<Rightarrow> bstate \<Rightarrow> bool" for lim :: int where
  breach_init: "breachable lim binit"
| breach_step: "breachable lim s \<Longrightarrow> print_numbers lim t s = Some s' \<Longrightarrow> breachable lim s'"

definition bjoined :: "bstate \<Rightarrow> bool" where
  "bjoined s = (bpc_odd s = BReturned \<and> bpc_even s = BReturned)"

subsection \<open>Invariant and a schedule that makes progress\<close>

definition in_bcs :: "bpc \<Rightarrow> bool" where
  "in_bcs p = (p \<noteq> BLock \<and> p \<noteq> BReturned)"

definition binv_thread :: "int \<Rightarrow> tid \<Rightarrow> bstate \<Rightarrow> bool" where
  "binv_thread lim t s =
     ((in_bcs (bpc_of t s) \<longleftrightarrow> block s = Some t)
      \<and> (bpc_of t s = BExitUnlock \<longrightarrow> lim < bcounter s)
      \<and> (bpc_of t s = BReturned \<longrightarrow> lim < bcounter s)
      \<and> (bpc_of t s = BCond \<longrightarrow> bcounter s \<le> lim)
      \<and> (bpc_of t s = BPrint \<longrightarrow> bcounter s \<le> lim \<and> role_of (bcounter s) = t)
      \<and> (bpc_of t s = BIncr \<longrightarrow>
            bcounter s \<le> lim \<and> role_of (bcounter s) = t
            \<and> printed s = round_robin (bcounter s)))"

definition binv :: "int \<Rightarrow> bstate \<Rightarrow> bool" where
  "binv lim s =
     (1 \<le> bcounter s \<and> bcounter s \<le> lim + 1
      \<and> binv_thread lim OddT s \<and> binv_thread lim EvenT s
      \<and> ((\<forall>t. bpc_of t s \<noteq> BIncr) \<longrightarrow> printed s = round_robin (bcounter s - 1)))"

text \<open>
  Thread \<open>t\<close> is useful when its next pass through the loop body does something: it
  prints (the parity of the counter is its own) or it returns (the counter is beyond
  \<open>lim\<close>). \<open>helpful\<close> picks the thread that holds the mutex, or else a useful thread
  that has not returned; under this schedule \<open>bpotential\<close> decreases with every statement.
\<close>

definition useful :: "int \<Rightarrow> tid \<Rightarrow> bstate \<Rightarrow> bool" where
  "useful lim t s = (lim < bcounter s \<or> role_of (bcounter s) = t)"

definition bweight :: "bool \<Rightarrow> bpc \<Rightarrow> nat" where
  "bweight u p =
     (if u
      then (case p of
              BReturned \<Rightarrow> 0 | BExitUnlock \<Rightarrow> 1 | BIncr \<Rightarrow> 2 | BPrint \<Rightarrow> 3 | BCond \<Rightarrow> 4
            | BTest \<Rightarrow> 5 | BLock \<Rightarrow> 6 | BUnlock \<Rightarrow> 7)
      else (case p of BUnlock \<Rightarrow> 1 | BCond \<Rightarrow> 2 | BTest \<Rightarrow> 3 | _ \<Rightarrow> 0))"

definition bpotential :: "int \<Rightarrow> bstate \<Rightarrow> nat" where
  "bpotential lim s =
     12 * nat (lim + 1 - bcounter s)
     + bweight (useful lim OddT s) (bpc_odd s) + bweight (useful lim EvenT s) (bpc_even s)"

definition helpful :: "int \<Rightarrow> bstate \<Rightarrow> tid" where
  "helpful lim s =
     (case block s of
        Some t \<Rightarrow> t
      | None \<Rightarrow>
          if bcounter s \<le> lim then role_of (bcounter s)
          else if bpc_odd s \<noteq> BReturned then OddT else EvenT)"

subsection \<open>Concrete schedules of the polling printer\<close>

text \<open>The even thread polls once: lock, test, parity test, unlock.\<close>

definition spin :: "tid list" where
  "spin = [EvenT, EvenT, EvenT, EvenT]"

text \<open>
  Each thread runs a whole loop iteration (six statements) when the parity is its own;
  after fifty rounds both find \<open>counter > MAX\<close> and return.
\<close>

definition bsched_full :: "tid list" where
  "bsched_full =
     concat (replicate 50 (replicate 6 OddT @ replicate 6 EvenT))
     @ replicate 3 OddT @ replicate 3 EvenT"

section \<open>Letter writer with a condition variable (12\_ABCDabcdWiteFileSync.c)\<close>

text \<open>
  The two participants: the first thread runs \<open>write_caps\<close>, the second
  \<open>write_smalls\<close>.
\<close>

datatype wid = Caps | Smalls

text \<open>
  Control points of one thread function, named after what is executed next: the loop test
  \<open>ch <= 'Z'\<close>, \<open>pthread_mutex_lock\<close>, the guard of the \<open>while\<close>, blocked in
  \<open>pthread_cond_wait\<close>, woken and taking the mutex again, \<open>printf\<close>, \<open>fputc\<close>,
  \<open>fflush\<close>, the assignment to \<open>turn\<close>, \<open>pthread_cond_signal\<close>,
  \<open>pthread_mutex_unlock\<close>, \<open>ch++\<close>, and \<open>return\<close>.
\<close>

datatype wpc =
    WLoop | WLock | WGuard | WWaiting | WWoken | WPrintf | WFputc | WFflush
  | WSetTurn | WSignal | WUnlock | WNext | WReturned

text \<open>
  The file-scope variables \<open>turn\<close> and \<open>mutex\<close>, the wait queue of \<open>cond\<close> (the
  threads at \<open>WWaiting\<close>), the loop variable \<open>ch\<close> of each thread (a \<open>char\<close>, here
  its code: it stays between 65 and 123), what has been written to standard output and to
  the stream \<open>fp\<close>, the characters written to \<open>fp\<close> each with the thread that wrote
  it, and the number of spurious wake-ups the environment may still deliver.
\<close>

record wstate =
  turn :: int
  mutex :: "wid option"
  pc_caps :: wpc
  pc_smalls :: wpc
  ch_caps :: int
  ch_smalls :: int
  console :: string
  fp :: string
  wlog :: "(wid \<times> char) list"
  wspurious :: nat

text \<open>
  The state in which \<open>main\<close> has opened the file, initialised the mutex and the
  condition and created both threads; each thread has initialised its \<open>ch\<close>.
\<close>

definition winit :: "nat \<Rightarrow> wstate" where
  "winit k = \<lparr> turn = 0, mutex = None, pc_caps = WLoop, pc_smalls = WLoop,
              ch_caps = of_char CHR ''A'', ch_smalls = of_char CHR ''a'',
              console = [], fp = [], wlog = [], wspurious = k \<rparr>"

text \<open>\<open>pthread_cond_signal(&cond)\<close>: a thread blocked on the condition, if any, is woken.\<close>

definition wcond_signal :: "wstate \<Rightarrow> wstate" where
  "wcond_signal s =
     (if pc_caps s = WWaiting then s\<lparr>pc_caps := WWoken\<rparr>
      else if pc_smalls s = WWaiting then s\<lparr>pc_smalls := WWoken\<rparr>
      else s)"

text \<open>One statement of \<open>write_caps\<close> (lines 11 to 24).\<close>

definition write_caps :: "wstate \<Rightarrow> wstate option" where
  "write_caps s =
     (case pc_caps s of
        WLoop \<Rightarrow>
          if ch_caps s \<le> of_char CHR ''Z'' then Some (s\<lparr>pc_caps := WLock\<rparr>)
          else Some (s\<lparr>pc_caps := WReturned\<rparr>)
      | WLock \<Rightarrow>
          if mutex s = None then Some (s\<lparr>mutex := Some Caps, pc_caps := WGuard\<rparr>) else None
      | WGuard \<Rightarrow>
          if turn s \<noteq> 0 then Some (s\<lparr>mutex := None, pc_caps := WWaiting\<rparr>)
          else Some (s\<lparr>pc_caps := WPrintf\<rparr>)
      | WWaiting \<Rightarrow> None
      | WWoken \<Rightarrow>
          if mutex s = None then Some (s\<lparr>mutex := Some Caps, pc_caps := WGuard\<rparr>) else None
      | WPrintf \<Rightarrow> Some (s\<lparr>console := console s @ [char_of (ch_caps s)], pc_caps := WFputc\<rparr>)
      | WFputc \<Rightarrow>
          Some (s\<lparr>fp := fp s @ [char_of (ch_caps s)],
                  wlog := wlog s @ [(Caps, char_of (ch_caps s))], pc_caps := WFflush\<rparr>)
      | WFflush \<Rightarrow> Some (s\<lparr>pc_caps := WSetTurn\<rparr>)
      | WSetTurn \<Rightarrow> Some (s\<lparr>turn := 1, pc_caps := WSignal\<rparr>)
      | WSignal \<Rightarrow> Some ((wcond_signal s)\<lparr>pc_caps := WUnlock\<rparr>)
      | WUnlock \<Rightarrow> Some (s\<lparr>mutex := None, pc_caps := WNext\<rparr>)
      | WNext \<Rightarrow> Some (s\<lparr>ch_caps := ch_caps s + 1, pc_caps := WLoop\<rparr>)
      | WReturned \<Rightarrow> None)"

text \<open>One statement of \<open>write_smalls\<close> (lines 26 to 39).\<close>

definition write_smalls :: "wstate \<Rightarrow> wstate option" where
  "write_smalls s =
     (case pc_smalls s of
        WLoop \<Rightarrow>
          if ch_smalls s \<le> of_char CHR ''z'' then Some (s\<lparr>pc_smalls := WLock\<rparr>)
          else Some (s\<lparr>pc_smalls := WReturned\<rparr>)
      | WLock \<Rightarrow>
          if mutex s = None then Some (s\<lparr>mutex := Some Smalls, pc_smalls := WGuard\<rparr>) else None
      | WGuard \<Rightarrow>
          if turn s \<noteq> 1 then Some (s\<lparr>mutex := None, pc_smalls := WWaiting\<rparr>)
          else Some (s\<lparr>pc_smalls := WPrintf\<rparr>)
      | WWaiting \<Rightarrow> None
      | WWoken \<Rightarrow>
          if mutex s = None then Some (s\<lparr>mutex := Some Smalls, pc_smalls := WGuard\<rparr>) else None
      | WPrintf \<Rightarrow>
          Some (s\<lparr>console := console s @ [CHR '' '', char_of (ch_smalls s), CHR 0x0A],
                  pc_smalls := WFputc\<rparr>)
      | WFputc \<Rightarrow>
          Some (s\<lparr>fp := fp s @ [char_of (ch_smalls s)],
                  wlog := wlog s @ [(Smalls, char_of (ch_smalls s))],
                  pc_smalls := WFflush\<rparr>)
      | WFflush \<Rightarrow> Some (s\<lparr>pc_smalls := WSetTurn\<rparr>)
      | WSetTurn \<Rightarrow> Some (s\<lparr>turn := 0, pc_smalls := WSignal\<rparr>)
      | WSignal \<Rightarrow> Some ((wcond_signal s)\<lparr>pc_smalls := WUnlock\<rparr>)
      | WUnlock \<Rightarrow> Some (s\<lparr>mutex := None, pc_smalls := WNext\<rparr>)
      | WNext \<Rightarrow> Some (s\<lparr>ch_smalls := ch_smalls s + 1, pc_smalls := WLoop\<rparr>)
      | WReturned \<Rightarrow> None)"

definition wpc_of :: "wid \<Rightarrow> wstate \<Rightarrow> wpc" where
  "wpc_of t s = (case t of Caps \<Rightarrow> pc_caps s | Smalls \<Rightarrow> pc_smalls s)"

definition wspurious_wakeup :: "wid \<Rightarrow> wstate \<Rightarrow> wstate option" where
  "wspurious_wakeup t s =
     (if wpc_of t s = WWaiting \<and> 0 < wspurious s
      then Some ((case t of Caps \<Rightarrow> s\<lparr>pc_caps := WWoken\<rparr> | Smalls \<Rightarrow> s\<lparr>pc_smalls := WWoken\<rparr>)
                 \<lparr>wspurious := wspurious s - 1\<rparr>)
      else None)"

datatype waction = WRun wid | WSpurious wid

definition wstep :: "waction \<Rightarrow> wstate \<Rightarrow> wstate option" where
  "wstep a s =
     (case a of
        WRun Caps \<Rightarrow> write_caps s
      | WRun Smalls \<Rightarrow> write_smalls s
      | WSpurious t \<Rightarrow> wspurious_wakeup t s)"

fun wexec :: "waction list \<Rightarrow> wstate \<Rightarrow> wstate option" where
  "wexec [] s = Some s"
| "wexec (a # as) s = (case wstep a s of None \<Rightarrow> None | Some s' \<Rightarrow> wexec as s')"

inductive wreachable :: "wstate \<Rightarrow> bool" where
  wreach_init: "wreachable (winit k)"
| wreach_step: "wreachable s \<Longrightarrow> wstep a s = Some s' \<Longrightarrow> wreachable s'"

definition wjoined :: "wstate \<Rightarrow> bool" where
  "wjoined s = (pc_caps s = WReturned \<and> pc_smalls s = WReturned)"

subsection \<open>Invariant and progress measure of the letter writer\<close>

text \<open>The control points between \<open>pthread_mutex_lock\<close> and \<open>pthread_mutex_unlock\<close>.\<close>

fun in_wcs :: "wpc \<Rightarrow> bool" where
  "in_wcs WLoop = False"
| "in_wcs WLock = False"
| "in_wcs WGuard = True"
| "in_wcs WWaiting = False"
| "in_wcs WWoken = False"
| "in_wcs WPrintf = True"
| "in_wcs WFputc = True"
| "in_wcs WFflush = True"
| "in_wcs WSetTurn = True"
| "in_wcs WSignal = True"
| "in_wcs WUnlock = True"
| "in_wcs WNext = False"
| "in_wcs WReturned = False"

text \<open>
  \<open>wrote p\<close> is 1 when the thread has written the character of the current iteration
  and not yet incremented \<open>ch\<close>; \<open>pending p\<close> is 1 when it has written but not yet
  handed the turn over; \<open>holds_turn p\<close> between the guard and the assignment to
  \<open>turn\<close>.
\<close>

fun wrote :: "wpc \<Rightarrow> int" where
  "wrote WLoop = 0"
| "wrote WLock = 0"
| "wrote WGuard = 0"
| "wrote WWaiting = 0"
| "wrote WWoken = 0"
| "wrote WPrintf = 0"
| "wrote WFputc = 0"
| "wrote WFflush = 1"
| "wrote WSetTurn = 1"
| "wrote WSignal = 1"
| "wrote WUnlock = 1"
| "wrote WNext = 1"
| "wrote WReturned = 0"

fun pending :: "wpc \<Rightarrow> int" where
  "pending WFflush = 1"
| "pending WSetTurn = 1"
| "pending WLoop = 0"
| "pending WLock = 0"
| "pending WGuard = 0"
| "pending WWaiting = 0"
| "pending WWoken = 0"
| "pending WPrintf = 0"
| "pending WFputc = 0"
| "pending WSignal = 0"
| "pending WUnlock = 0"
| "pending WNext = 0"
| "pending WReturned = 0"

fun holds_turn :: "wpc \<Rightarrow> bool" where
  "holds_turn WPrintf = True"
| "holds_turn WFputc = True"
| "holds_turn WFflush = True"
| "holds_turn WSetTurn = True"
| "holds_turn WLoop = False"
| "holds_turn WLock = False"
| "holds_turn WGuard = False"
| "holds_turn WWaiting = False"
| "holds_turn WWoken = False"
| "holds_turn WSignal = False"
| "holds_turn WUnlock = False"
| "holds_turn WNext = False"
| "holds_turn WReturned = False"

text \<open>The number of characters each thread has written.\<close>

definition n_caps :: "wstate \<Rightarrow> int" where
  "n_caps s = ch_caps s - 65 + wrote (pc_caps s)"

definition n_smalls :: "wstate \<Rightarrow> int" where
  "n_smalls s = ch_smalls s - 97 + wrote (pc_smalls s)"

text \<open>
  The expected content: position \<open>k\<close> (from 0) holds the capital letter number
  \<open>k div 2\<close> written by \<open>write_caps\<close> when \<open>k\<close> is even, and the small letter number
  \<open>k div 2\<close> written by \<open>write_smalls\<close> when \<open>k\<close> is odd.
\<close>

definition letter_at :: "int \<Rightarrow> wid \<times> char" where
  "letter_at k =
     (if k mod 2 = 0 then (Caps, char_of (65 + k div 2)) else (Smalls, char_of (97 + k div 2)))"

definition letters_upto :: "int \<Rightarrow> (wid \<times> char) list" where
  "letters_upto n = map letter_at [0..n - 1]"

definition winv :: "wstate \<Rightarrow> bool" where
  "winv s =
     (65 \<le> ch_caps s \<and> ch_caps s \<le> 91 \<and> 97 \<le> ch_smalls s \<and> ch_smalls s \<le> 123
      \<and> (pc_caps s \<noteq> WLoop \<and> pc_caps s \<noteq> WReturned \<longrightarrow> ch_caps s \<le> 90)
      \<and> (pc_caps s = WReturned \<longrightarrow> ch_caps s = 91)
      \<and> (pc_smalls s \<noteq> WLoop \<and> pc_smalls s \<noteq> WReturned \<longrightarrow> ch_smalls s \<le> 122)
      \<and> (pc_smalls s = WReturned \<longrightarrow> ch_smalls s = 123)
      \<and> (in_wcs (pc_caps s) \<longleftrightarrow> mutex s = Some Caps)
      \<and> (in_wcs (pc_smalls s) \<longleftrightarrow> mutex s = Some Smalls)
      \<and> (turn s = 0 \<or> turn s = 1)
      \<and> n_caps s - pending (pc_caps s) = n_smalls s - pending (pc_smalls s) + turn s
      \<and> (holds_turn (pc_caps s) \<longrightarrow> turn s = 0)
      \<and> (holds_turn (pc_smalls s) \<longrightarrow> turn s = 1)
      \<and> (pc_caps s = WWaiting \<longrightarrow>
            pc_smalls s = WSetTurn \<or> pc_smalls s = WSignal \<or> turn s = 1)
      \<and> (pc_smalls s = WWaiting \<longrightarrow>
            pc_caps s = WSetTurn \<or> pc_caps s = WSignal \<or> turn s = 0)
      \<and> wlog s = letters_upto (n_caps s + n_smalls s)
      \<and> fp s = map snd (wlog s))"

definition wweight :: "wpc \<Rightarrow> nat" where
  "wweight p =
     (case p of
        WReturned \<Rightarrow> 0 | WNext \<Rightarrow> 1 | WUnlock \<Rightarrow> 2 | WSignal \<Rightarrow> 7 | WSetTurn \<Rightarrow> 8
      | WFflush \<Rightarrow> 9 | WFputc \<Rightarrow> 10 | WPrintf \<Rightarrow> 11 | WGuard \<Rightarrow> 12 | WWaiting \<Rightarrow> 9
      | WWoken \<Rightarrow> 13 | WLock \<Rightarrow> 13 | WLoop \<Rightarrow> 14)"

definition wpotential :: "wstate \<Rightarrow> nat" where
  "wpotential s =
     14 * nat (91 - ch_caps s) + 14 * nat (123 - ch_smalls s) + 5 * wspurious s
     + wweight (pc_caps s) + wweight (pc_smalls s)"

definition alphabet :: string where
  "alphabet = ''AaBbCcDdEeFfGgHhIiJjKkLlMmNnOoPpQqRrSsTtUuVvWwXxYyZz''"

text \<open>The value of \<open>turn\<close> that lets a thread act, and the other thread.\<close>

definition turn_value :: "wid \<Rightarrow> int" where
  "turn_value t = (case t of Caps \<Rightarrow> 0 | Smalls \<Rightarrow> 1)"

fun wother :: "wid \<Rightarrow> wid" where
  "wother Caps = Smalls"
| "wother Smalls = Caps"

definition ch_of :: "wid \<Rightarrow> wstate \<Rightarrow> int" where
  "ch_of t s = (case t of Caps \<Rightarrow> ch_caps s | Smalls \<Rightarrow> ch_smalls s)"



subsection \<open>Concrete schedules of the letter writer\<close>

text \<open>
  Each thread runs a whole loop iteration (ten statements) when it is its turn; after 26
  rounds both leave the loop.
\<close>

definition wsched_full :: "waction list" where
  "wsched_full =
     concat (replicate 26 (replicate 10 (WRun Caps) @ replicate 10 (WRun Smalls)))
     @ [WRun Caps, WRun Smalls]"

text \<open>
  \<open>write_smalls\<close> starts and blocks; it is woken spuriously and evaluates its guard
  again. \<open>wsched_alt\<close> continues from the spurious wake-up to the end.
\<close>

definition wsched_smalls_waits :: "waction list" where
  "wsched_smalls_waits = [WRun Smalls, WRun Smalls, WRun Smalls]"

definition wsched_spurious :: "waction list" where
  "wsched_spurious = wsched_smalls_waits @ [WSpurious Smalls, WRun Smalls]"


text \<open>\<open>write_caps\<close> is about to print \<open>A\<close>.\<close>

definition wsched_caps_writes :: "waction list" where
  "wsched_caps_writes = replicate 3 (WRun Caps)"


section \<open>Start-up of the programs (\<open>main\<close>)\<close>

text \<open>
  What the environment decides during start-up: whether \<open>fopen\<close> returns a stream, and
  the return codes of \<open>pthread_mutex_init\<close> and \<open>pthread_cond_init\<close> (0 is success).
\<close>

record startup_env =
  fopen_ok :: bool
  mutex_init_rc :: int
  cond_init_rc :: int

text \<open>
  The start-up phase of \<open>main\<close> ends in \<open>return 1\<close> before any thread exists, or with
  both threads created. The library calls made on the way are recorded in order.
\<close>

datatype startup = Abort int | Launched

datatype libcall = Fopen | MutexInit | CondInit | Perror string | PthreadCreate string

text \<open>\<open>main\<close> of 11\_ABCDabcdWiteFile.c, lines 31 to 49.\<close>

definition main_11 :: "startup_env \<Rightarrow> startup \<times> libcall list" where
  "main_11 env =
     (if \<not> fopen_ok env then (Abort 1, [Fopen, Perror ''File open failed''])
      else if mutex_init_rc env \<noteq> 0
      then (Abort 1, [Fopen, MutexInit, Perror ''Mutex init failed''])
      else (Launched,
            [Fopen, MutexInit, PthreadCreate ''write_caps'', PthreadCreate ''write_smalls'']))"

text \<open>
  \<open>main\<close> of 12\_ABCDabcdWiteFileSync.c, lines 41 to 54: the results of
  \<open>pthread_mutex_init\<close> and \<open>pthread_cond_init\<close> are not looked at.
\<close>

definition main_12 :: "startup_env \<Rightarrow> startup \<times> libcall list" where
  "main_12 env =
     (if \<not> fopen_ok env then (Abort 1, [Fopen, Perror ''fopen''])
      else (Launched,
            [Fopen, MutexInit, CondInit,
             PthreadCreate ''write_caps'', PthreadCreate ''write_smalls'']))"

text \<open>
  \<open>main\<close> of 09\_Print\_Odd\_even.c, lines 57 to 61: the mutex and the condition have
  static initialisers, nothing can fail before the threads are created.
\<close>

definition main_09 :: "startup \<times> libcall list" where
  "main_09 = (Launched, [PthreadCreate ''print_odd'', PthreadCreate ''print_even''])"

fun is_create :: "libcall \<Rightarrow> bool" where
  "is_create (PthreadCreate f) = True"
| "is_create _ = False"

text \<open>An environment in which only \<open>pthread_mutex_init\<close> fails, and one in which only \<open>fopen\<close> fails.\<close>

definition env_mutex_fails :: startup_env where
  "env_mutex_fails = \<lparr> fopen_ok = True, mutex_init_rc = 12, cond_init_rc = 0 \<rparr>"

definition env_fopen_fails :: startup_env where
  "env_fopen_fails = \<lparr> fopen_ok = False, mutex_init_rc = 0, cond_init_rc = 0 \<rparr>"


section \<open>Properties of the condition-variable printer\<close>

lemma outputs_append [simp]: "outputs (es @ fs) = outputs es @ outputs fs"
  by (induction es rule: outputs.induct) auto

lemma full_trace_0 [simp]: "full_trace 0 = []"
  by (simp add: full_trace_def)

lemma full_trace_step: "1 \<le> n \<Longrightarrow> full_trace n = full_trace (n - 1) @ step_events n"
  using upto_rec2 [of 1 n] by (simp add: full_trace_def)

lemma full_trace_snoc:
  "2 \<le> c \<Longrightarrow> role_of (c - 1) = t \<Longrightarrow>
   full_trace (c - 2) @ [Printed t (c - 1), CondSignal t] = full_trace (c - 1)"
  using full_trace_step [of "c - 1"] by (simp add: step_events_def)

lemma role_of_pred [simp]:
  "role_of (n - 1) = OddT \<longleftrightarrow> role_of n = EvenT"
  "role_of (n - 1) = EvenT \<longleftrightarrow> role_of n = OddT"
  unfolding role_of_def by (simp_all, presburger+)

lemma role_of_succ [simp]:
  "role_of (n + 1) = OddT \<longleftrightarrow> role_of n = EvenT"
  "role_of (n + 1) = EvenT \<longleftrightarrow> role_of n = OddT"
  unfolding role_of_def by (simp_all, presburger+)

lemma role_of_neq [simp]:
  "role_of n \<noteq> OddT \<longleftrightarrow> role_of n = EvenT"
  "role_of n \<noteq> EvenT \<longleftrightarrow> role_of n = OddT"
  by (simp_all add: role_of_def)

lemma tid_all: "(\<forall>t. P t) \<longleftrightarrow> P OddT \<and> P EvenT"
  by (metis tid.exhaust)

lemma inv_init: "0 \<le> lim \<Longrightarrow> inv lim (init k)"
  by (simp add: inv_def inv_thread_def init_def pc_of_def in_cs_def tid_all my_turn_def role_of_def)

lemmas inv_unfold =
  inv_def inv_thread_def tid_all pc_of_def set_pc_def my_turn_def in_cs_def cond_signal_def Let_def

lemma inv_print_odd:
  assumes "inv lim s" "print_odd lim s = Some s'"
  shows "inv lim s'"
  using assms unfolding print_odd_def inv_unfold
  by (cases "pc_odd s"; clarsimp split: if_splits simp: full_trace_snoc) auto

lemma inv_print_even:
  assumes "inv lim s" "print_even lim s = Some s'"
  shows "inv lim s'"
  using assms unfolding print_even_def inv_unfold
  by (cases "pc_even s"; clarsimp split: if_splits simp: full_trace_snoc) auto

lemma inv_spurious:
  assumes "inv lim s" "spurious_wakeup t s = Some s'"
  shows "inv lim s'"
  using assms unfolding spurious_wakeup_def inv_unfold
  by (cases t; clarsimp split: if_splits)

lemma inv_step: "inv lim s \<Longrightarrow> step lim a s = Some s' \<Longrightarrow> inv lim s'"
  unfolding step_def
  by (auto split: action.splits tid.splits intro: inv_print_odd inv_print_even inv_spurious)

lemma reachable_inv:
  assumes "reachable lim s" "0 \<le> lim"
  shows "inv lim s"
  using assms by (induction rule: reachable.induct) (auto intro: inv_init inv_step)

lemma potential_print_odd:
  assumes "inv lim s" "print_odd lim s = Some s'"
  shows "potential lim s' < potential lim s"
  using assms unfolding print_odd_def inv_unfold potential_def weight_def
  by (cases "pc_odd s"; clarsimp split: if_splits) arith+

lemma potential_print_even:
  assumes "inv lim s" "print_even lim s = Some s'"
  shows "potential lim s' < potential lim s"
  using assms unfolding print_even_def inv_unfold potential_def weight_def
  by (cases "pc_even s"; clarsimp split: if_splits) arith+

lemma potential_spurious:
  assumes "spurious_wakeup t s = Some s'"
  shows "potential lim s' < potential lim s"
  using assms unfolding spurious_wakeup_def potential_def weight_def pc_of_def set_pc_def
  by (cases t; clarsimp split: if_splits) arith+

lemma potential_step:
  "inv lim s \<Longrightarrow> step lim a s = Some s' \<Longrightarrow> potential lim s' < potential lim s"
  unfolding step_def
  by (auto split: action.splits tid.splits
           intro: potential_print_odd potential_print_even potential_spurious)

lemma print_odd_enabled:
  "print_odd lim s = None \<longleftrightarrow>
     pc_odd s = Returned \<or> pc_odd s = Waiting
     \<or> ((pc_odd s = AtLock \<or> pc_odd s = Woken) \<and> lock s \<noteq> None)"
  unfolding print_odd_def by (cases "pc_odd s"; simp)

lemma print_even_enabled:
  "print_even lim s = None \<longleftrightarrow>
     pc_even s = Returned \<or> pc_even s = Waiting
     \<or> ((pc_even s = AtLock \<or> pc_even s = Woken) \<and> lock s \<noteq> None)"
  unfolding print_even_def by (cases "pc_even s"; simp)

lemma inv_lock:
  assumes "inv lim s"
  shows "in_cs (pc_odd s) \<longleftrightarrow> lock s = Some OddT"
    and "in_cs (pc_even s) \<longleftrightarrow> lock s = Some EvenT"
  using assms by (simp_all add: inv_def inv_thread_def pc_of_def)

lemma inv_waiting:
  assumes "inv lim s"
  shows "pc_odd s = Waiting \<Longrightarrow>
           pc_even s = AtSetTurn \<or> pc_even s = AtSignal \<or> (\<not> is_odd_turn s \<and> counter s \<le> lim)"
    and "pc_even s = Waiting \<Longrightarrow>
           pc_odd s = AtSetTurn \<or> pc_odd s = AtSignal \<or> (is_odd_turn s \<and> counter s \<le> lim)"
  using assms by (simp_all add: inv_def inv_thread_def pc_of_def my_turn_def)

lemma inv_returned:
  assumes "inv lim s"
  shows "pc_odd s = Returned \<Longrightarrow> lim < counter s"
    and "pc_even s = Returned \<Longrightarrow> lim < counter s"
  using assms by (simp_all add: inv_def inv_thread_def pc_of_def)

lemma no_deadlock:
  assumes "inv lim s" "\<not> joined s"
  shows "\<exists>t s'. step lim (Run t) s = Some s'"
proof -
  have "print_odd lim s \<noteq> None \<or> print_even lim s \<noteq> None"
  proof (cases "lock s")
    case None
    with inv_lock [OF assms(1)] have out: "\<not> in_cs (pc_odd s)" "\<not> in_cs (pc_even s)"
      by simp_all
    show ?thesis
    proof (rule ccontr)
      assume "\<not> ?thesis"
      with None have stuck:
        "pc_odd s = Returned \<or> pc_odd s = Waiting" "pc_even s = Returned \<or> pc_even s = Waiting"
        by (simp_all add: print_odd_enabled print_even_enabled)
      from stuck assms(2) inv_waiting [OF assms(1)] inv_returned [OF assms(1)]
      show False
        unfolding joined_def by force
    qed
  next
    case (Some t)
    with inv_lock [OF assms(1)] have "in_cs (pc_of t s)"
      by (cases t) (simp_all add: pc_of_def)
    with Some show ?thesis
      by (cases t) (auto simp: print_odd_enabled print_even_enabled pc_of_def in_cs_def)
  qed
  then show ?thesis
    unfolding step_def by (auto intro: exI [of _ OddT] exI [of _ EvenT])
qed

lemma exec_reachable:
  "reachable lim s \<Longrightarrow> exec lim as s = Some s' \<Longrightarrow> reachable lim s'"
  by (induction as arbitrary: s) (auto split: option.splits intro: reach_step)

lemma exec_append:
  "exec lim (as @ bs) s = (case exec lim as s of None \<Rightarrow> None | Some s' \<Rightarrow> exec lim bs s')"
  by (induction as arbitrary: s) (auto split: option.splits)

lemma outputs_full_trace: "0 \<le> n \<Longrightarrow> outputs (full_trace n) = round_robin n"
proof (induction n rule: int_ge_induct)
  case base
  show ?case by (simp add: round_robin_def)
next
  case (step i)
  have "full_trace (i + 1) = full_trace i @ step_events (i + 1)"
    using full_trace_step [of "i + 1"] step.hyps by simp
  moreover have "round_robin (i + 1) = round_robin i @ [(role_of (i + 1), i + 1)]"
    using upto_rec2 [of 1 "i + 1"] step.hyps by (simp add: round_robin_def)
  ultimately show ?case
    using step.IH by (simp add: step_events_def)
qed

text \<open>What the invariant says about the trace, for every control point.\<close>

lemma inv_trace:
  assumes "inv lim s"
  shows "trace s = full_trace (counter s - 1)
         \<or> (\<exists>t. (pc_of t s = AtSetTurn \<or> pc_of t s = AtSignal) \<and> 2 \<le> counter s
                 \<and> trace s = full_trace (counter s - 2) @ [Printed t (counter s - 1)]
                 \<and> role_of (counter s - 1) = t)
         \<or> (\<exists>t. pc_of t s = AtIncr \<and> counter s \<le> lim \<and> role_of (counter s) = t
                 \<and> trace s = full_trace (counter s - 1) @ [Printed t (counter s)])"
proof (cases "\<forall>t. pc_of t s \<noteq> AtIncr \<and> pc_of t s \<noteq> AtSetTurn \<and> pc_of t s \<noteq> AtSignal")
  case True
  with assms show ?thesis by (simp add: inv_def)
next
  case False
  then obtain t where "pc_of t s = AtIncr \<or> pc_of t s = AtSetTurn \<or> pc_of t s = AtSignal"
    by blast
  moreover from assms have "inv_thread lim t s"
    by (cases t) (simp_all add: inv_def)
  ultimately show ?thesis
    unfolding inv_thread_def by blast
qed

lemma inv_outputs:
  assumes "inv lim s"
  shows "outputs (trace s) = round_robin (counter s - 1)
         \<or> (outputs (trace s) = round_robin (counter s) \<and> counter s \<le> lim)"
proof -
  have c: "1 \<le> counter s" using assms by (simp add: inv_def)
  from inv_trace [OF assms] consider
      (quiet) "trace s = full_trace (counter s - 1)"
    | (printed) t where "2 \<le> counter s"
        "trace s = full_trace (counter s - 2) @ [Printed t (counter s - 1)]"
        "role_of (counter s - 1) = t"
    | (pending) t where "counter s \<le> lim" "role_of (counter s) = t"
        "trace s = full_trace (counter s - 1) @ [Printed t (counter s)]"
    by blast
  then show ?thesis
  proof cases
    case quiet
    with c show ?thesis by (simp add: outputs_full_trace)
  next
    case printed
    have "round_robin (counter s - 1) = round_robin (counter s - 2) @ [(t, counter s - 1)]"
      using upto_rec2 [of 1 "counter s - 1"] printed by (simp add: round_robin_def)
    with printed show ?thesis by (simp add: outputs_full_trace)
  next
    case pending
    have "round_robin (counter s) = round_robin (counter s - 1) @ [(t, counter s)]"
      using upto_rec2 [of 1 "counter s"] pending c by (simp add: round_robin_def)
    with pending c show ?thesis by (simp add: outputs_full_trace)
  qed
qed

lemma inv_joined:
  assumes "inv lim s" "joined s"
  shows "counter s = lim + 1" "trace s = full_trace lim"
proof -
  from assms have "lim < counter s" "counter s \<le> lim + 1"
    by (simp_all add: inv_def inv_thread_def joined_def pc_of_def)
  then show c: "counter s = lim + 1" by simp
  from assms have "trace s = full_trace (counter s - 1)"
    by (simp add: inv_def joined_def pc_of_def tid_all)
  with c show "trace s = full_trace lim" by simp
qed

lemma counter_step:
  assumes "inv lim s" "step lim a s = Some s'"
  shows "counter s' = counter s \<or> (counter s' = counter s + 1 \<and> counter s \<le> lim)"
proof (cases a)
  case (Run t)
  show ?thesis
  proof (cases t)
    case OddT
    with Run assms show ?thesis
      unfolding step_def print_odd_def inv_unfold
      by (cases "pc_odd s"; clarsimp split: if_splits)
  next
    case EvenT
    with Run assms show ?thesis
      unfolding step_def print_even_def inv_unfold
      by (cases "pc_even s"; clarsimp split: if_splits)
  qed
next
  case (Spurious t)
  with assms(2) show ?thesis
    unfolding step_def spurious_wakeup_def set_pc_def
    by (cases t; clarsimp split: if_splits)
qed

lemma round_robin_snoc: "0 \<le> n \<Longrightarrow> round_robin (n + 1) = round_robin n @ [(role_of (n + 1), n + 1)]"
  using upto_rec2 [of 1 "n + 1"] by (simp add: round_robin_def)



lemma length_round_robin [simp]: "length (round_robin n) = nat n"
  by (simp add: round_robin_def)





lemma inv_prefix:
  assumes "inv lim s"
  shows "\<exists>n. 0 \<le> n \<and> n \<le> lim \<and> (n = counter s - 1 \<or> n = counter s)
             \<and> outputs (trace s) = round_robin n"
proof -
  from assms have "1 \<le> counter s" "counter s \<le> lim + 1" by (simp_all add: inv_def)
  with inv_outputs [OF assms] show ?thesis
    by (elim disjE conjE) (rule exI [of _ "counter s - 1"], simp, rule exI [of _ "counter s"], simp)
qed

lemma inv_acting:
  assumes "inv lim s" "pc_of t s = AtPrint \<or> pc_of t s = AtIncr \<or> pc_of t s = AtSetTurn"
  shows "my_turn t s \<and> lock s = Some t"
proof -
  from assms(1) have "inv_thread lim t s" by (cases t) (simp_all add: inv_def)
  then have "in_cs (pc_of t s) \<longleftrightarrow> lock s = Some t"
    and "pc_of t s = AtPrint \<longrightarrow> my_turn t s"
    and "pc_of t s = AtIncr \<longrightarrow> my_turn t s"
    and "pc_of t s = AtSetTurn \<longrightarrow> my_turn t s"
    unfolding inv_thread_def by simp_all
  with assms(2) show ?thesis
    by (elim disjE) (simp_all add: in_cs_def)
qed

lemma inv_at_print:
  assumes "inv lim s" "pc_of t s = AtPrint"
  shows "counter s \<le> lim"
proof -
  from assms(1) have "inv_thread lim t s" by (cases t) (simp_all add: inv_def)
  with assms(2) show ?thesis
    unfolding inv_thread_def by simp
qed

lemma run_changes_output:
  assumes "step lim (Run t) s = Some s'" "outputs (trace s') \<noteq> outputs (trace s)"
  shows "pc_of t s = AtPrint \<and> outputs (trace s') = outputs (trace s) @ [(t, counter s)]"
proof (cases t)
  case OddT
  with assms show ?thesis
    unfolding step_def print_odd_def pc_of_def cond_signal_def Let_def
    by (cases "pc_odd s"; clarsimp split: if_splits)
next
  case EvenT
  with assms show ?thesis
    unfolding step_def print_even_def pc_of_def cond_signal_def Let_def
    by (cases "pc_even s"; clarsimp split: if_splits)
qed

lemma run_from_woken:
  assumes "pc_of t s = Woken" "step lim (Run t) s = Some s'"
  shows "pc_of t s' = AtGuard \<and> trace s' = trace s"
  using assms unfolding step_def print_odd_def print_even_def pc_of_def
  by (cases t; clarsimp split: if_splits)

lemma run_from_guard:
  assumes "pc_of t s = AtGuard" "\<not> my_turn t s" "counter s \<le> lim" "step lim (Run t) s = Some s'"
  shows "pc_of t s' = Waiting \<and> trace s' = trace s"
  using assms unfolding step_def print_odd_def print_even_def pc_of_def my_turn_def
  by (cases t; clarsimp split: if_splits)

lemma spurious_wakeup_effect:
  assumes "spurious_wakeup t s = Some s'"
  shows "pc_of t s' = Woken \<and> counter s' = counter s \<and> is_odd_turn s' = is_odd_turn s
         \<and> trace s' = trace s"
  using assms unfolding spurious_wakeup_def pc_of_def set_pc_def
  by (cases t; clarsimp split: if_splits)

lemma map_option_SomeD: "map_option f x = Some y \<Longrightarrow> \<exists>z. x = Some z \<and> f z = y"
  by (cases x) auto

lemma my_turn_unique: "\<exists>!t. my_turn t s"
proof (cases "is_odd_turn s")
  case True
  then have "my_turn OddT s" "\<not> my_turn EvenT s" by (simp_all add: my_turn_def)
  then show ?thesis by (metis tid.exhaust)
next
  case False
  then have "my_turn EvenT s" "\<not> my_turn OddT s" by (simp_all add: my_turn_def)
  then show ?thesis by (metis tid.exhaust)
qed

lemma other_blocked:
  assumes "inv lim s" "lock s = Some t"
  shows "step lim (Run (other t)) s = None"
proof (cases t)
  case OddT
  with assms inv_lock(2) [OF assms(1)] have "\<not> in_cs (pc_even s)" "lock s \<noteq> None" by simp_all
  then have "print_even lim s = None"
    unfolding print_even_enabled in_cs_def by blast 
  with OddT show ?thesis by (simp add: step_def)
next
  case EvenT
  with assms inv_lock(1) [OF assms(1)] have "\<not> in_cs (pc_odd s)" "lock s \<noteq> None" by simp_all
  then have "print_odd lim s = None"
    unfolding print_odd_enabled in_cs_def by blast
  with EvenT show ?thesis by (simp add: step_def)
qed

lemma whole_step:
  assumes "pc_of t s = AtPrint"
  shows "\<exists>s3. exec lim [Run t, Run t, Run t] s = Some s3
              \<and> counter s3 = counter s + 1 \<and> my_turn (other t) s3
              \<and> outputs (trace s3) = outputs (trace s) @ [(t, counter s)]
              \<and> pc_of t s3 = AtSignal"
  using assms
  by (cases t) (simp_all add: step_def print_odd_def print_even_def pc_of_def my_turn_def)

lemma map_snd_round_robin: "map snd (round_robin n) = [1..n]"
  by (simp add: round_robin_def comp_def)

lemma inv_quiet:
  assumes "inv lim s" "lock s = None"
  shows "outputs (trace s) = round_robin (counter s - 1) \<and> my_turn (role_of (counter s)) s"
proof -
  from assms inv_lock [OF assms(1)] have "\<not> in_cs (pc_odd s)" "\<not> in_cs (pc_even s)"
    by simp_all
  then have "\<forall>t. pc_of t s \<noteq> AtIncr \<and> pc_of t s \<noteq> AtSetTurn \<and> pc_of t s \<noteq> AtSignal"
    unfolding tid_all pc_of_def in_cs_def by auto
  with assms(1) have q: "is_odd_turn s \<longleftrightarrow> role_of (counter s) = OddT"
    "trace s = full_trace (counter s - 1)" "1 \<le> counter s"
    unfolding inv_def by simp_all
  from q(1) have "my_turn (role_of (counter s)) s"
    by (cases "role_of (counter s)") (simp_all add: my_turn_def)
  with q(2,3) show ?thesis by (simp add: outputs_full_trace)
qed


lemma exec_potential:
  "inv lim s \<Longrightarrow> exec lim as s = Some s' \<Longrightarrow> length as + potential lim s' \<le> potential lim s"
proof (induction as arbitrary: s)
  case Nil
  then show ?case by simp
next
  case (Cons a as)
  from Cons.prems(2) obtain s1 where s1: "step lim a s = Some s1" "exec lim as s1 = Some s'"
    by (auto split: option.splits)
  from Cons.IH [OF inv_step [OF Cons.prems(1) s1(1)] s1(2)] potential_step [OF Cons.prems(1) s1(1)]
  show ?case by simp
qed

lemma completes:
  "inv lim s \<Longrightarrow> \<exists>as s'. exec lim as s = Some s' \<and> joined s'"
proof (induction "potential lim s" arbitrary: s rule: less_induct)
  case less
  show ?case
  proof (cases "joined s")
    case True
    then have "exec lim [] s = Some s \<and> joined s" by simp
    then show ?thesis by blast
  next
    case False
    from no_deadlock [OF less.prems False] obtain t s1 where s1: "step lim (Run t) s = Some s1"
      by blast
    from less.hyps [OF potential_step [OF less.prems s1] inv_step [OF less.prems s1]]
    obtain as s' where "exec lim as s1 = Some s'" "joined s'" by blast
    with s1 have "exec lim (Run t # as) s = Some s' \<and> joined s'" by simp
    then show ?thesis by blast
  qed
qed

lemma potential_init: "0 \<le> lim \<Longrightarrow> potential lim (init k) = 11 * nat lim + 4 * k + 12"
  by (simp add: potential_def init_def weight_def)

lemma full_trace_events:
  "0 \<le> n \<Longrightarrow> e \<in> set (full_trace n) \<Longrightarrow>
     \<exists>i. 1 \<le> i \<and> i \<le> n \<and> (e = Printed (role_of i) i \<or> e = CondSignal (role_of i))"
proof (induction n rule: int_ge_induct)
  case base
  then show ?case by simp
next
  case (step n)
  have "full_trace (n + 1) = full_trace n @ step_events (n + 1)"
    using full_trace_step [of "n + 1"] step.hyps by simp
  with step.prems consider "e \<in> set (full_trace n)" | "e \<in> set (step_events (n + 1))"
    by auto
  then show ?case
  proof cases
    case 1
    from step.IH [OF this] obtain i where "1 \<le> i" "i \<le> n"
      "e = Printed (role_of i) i \<or> e = CondSignal (role_of i)" by blast
    then have "1 \<le> i \<and> i \<le> n + 1 \<and> (e = Printed (role_of i) i \<or> e = CondSignal (role_of i))"
      by simp
    then show ?thesis by blast
  next
    case 2
    with step.hyps have "1 \<le> n + 1 \<and> n + 1 \<le> n + 1
         \<and> (e = Printed (role_of (n + 1)) (n + 1) \<or> e = CondSignal (role_of (n + 1)))"
      by (auto simp: step_events_def)
    then show ?thesis by blast
  qed
qed

lemma no_broadcast_full_trace: "0 \<le> n \<Longrightarrow> CondBroadcast t \<notin> set (full_trace n)"
  using full_trace_events [of n "CondBroadcast t"] by auto

lemma after_terminal_full_trace:
  assumes "1 \<le> lim"
  shows "after_terminal lim (full_trace lim) = [CondSignal (role_of lim)]"
proof -
  have "\<not> is_print_of lim e" if "e \<in> set (full_trace (lim - 1))" for e
    using full_trace_events [OF _ that] assms by auto
  then have "dropWhile (\<lambda>e. \<not> is_print_of lim e) (full_trace (lim - 1) @ step_events lim)
             = dropWhile (\<lambda>e. \<not> is_print_of lim e) (step_events lim)"
    by (simp add: dropWhile_append2)
  then show ?thesis
    using full_trace_step [OF assms] by (simp add: after_terminal_def step_events_def)
qed

lemma inv_no_broadcast:
  assumes "inv lim s"
  shows "CondBroadcast t \<notin> set (trace s)"
proof -
  have c: "1 \<le> counter s" using assms by (simp add: inv_def)
  from inv_trace [OF assms] consider
      (quiet) "trace s = full_trace (counter s - 1)"
    | (printed) u where "2 \<le> counter s"
        "trace s = full_trace (counter s - 2) @ [Printed u (counter s - 1)]"
    | (pending) u where "trace s = full_trace (counter s - 1) @ [Printed u (counter s)]"
    by blast
  then show ?thesis
  proof cases
    case quiet
    with c show ?thesis by (simp add: no_broadcast_full_trace)
  next
    case printed
    then show ?thesis by (simp add: no_broadcast_full_trace)
  next
    case pending
    with c show ?thesis by (simp add: no_broadcast_full_trace)
  qed
qed

lemma run_signal:
  assumes "pc_of t s = AtSignal" "step lim (Run t) s = Some s'"
  shows "pc_of (other t) s' \<noteq> Waiting \<and> trace s' = trace s @ [CondSignal t]"
  using assms unfolding step_def print_odd_def print_even_def pc_of_def cond_signal_def Let_def
  by (cases t; clarsimp split: if_splits)

lemma inv_waiting_terminal:
  assumes "inv lim s" "pc_of t s = Waiting" "lim < counter s"
  shows "pc_of (other t) s = AtSetTurn \<or> pc_of (other t) s = AtSignal"
proof -
  from assms(1) have "inv_thread lim t s" by (cases t) (simp_all add: inv_def)
  then have "pc_of t s = Waiting \<longrightarrow>
            pc_of (other t) s = AtSetTurn \<or> pc_of (other t) s = AtSignal
            \<or> (\<not> my_turn t s \<and> counter s \<le> lim)"
    unfolding inv_thread_def by simp
  with assms(2,3) show ?thesis by simp
qed



subsection \<open>Concrete runs\<close>

lemma sched_full_run:
  "map_option (\<lambda>s. (joined s, counter s)) (exec MAX_val sched_full (init 0)) = Some (True, 101)"
  by code_simp

lemma sched_full_recorded:
  "map_option recorded (exec MAX_val sched_full (init 0)) = Some (cyclic_order 2 100)"
  by code_simp

lemma sched_even_waits_run:
  "map_option (\<lambda>s. (pc_of EvenT s, map_option (\<lambda>s. ()) (spurious_wakeup EvenT s)))
     (exec MAX_val sched_even_waits (init 1)) = Some (Waiting, Some ())"
  by code_simp

lemma sched_spurious_run:
  "map_option (\<lambda>s. (pc_of EvenT s, my_turn EvenT s, counter s \<le> MAX_val,
                   map_option (\<lambda>s. ()) (step MAX_val (Run EvenT) s)))
     (exec MAX_val sched_spurious (init 1)) = Some (AtGuard, False, True, Some ())"
  by code_simp

lemma sched_blocking_run:
  "map_option (\<lambda>s. (joined s, notify_all_on_terminal MAX_val (trace s),
                    after_terminal MAX_val (trace s)))
     (exec MAX_val sched_blocking (init 0)) = Some (True, False, [CondSignal EvenT])"
  by code_simp

lemma sched_odd_prints_run:
  "map_option (pc_of OddT) (exec MAX_val sched_odd_prints (init 0)) = Some AtPrint"
  by code_simp

lemma sched_zero_run:
  "map_option (\<lambda>s. (joined s, trace s)) (exec 0 sched_zero (init 0)) = Some (True, [])"
  by code_simp


lemma sched_to_last_signal_run:
  "map_option (\<lambda>s. (pc_odd s, pc_even s, counter s,
                    map_option (\<lambda>s'. (pc_odd s', drop 199 (trace s'))) (step MAX_val (Run EvenT) s)))
     (exec MAX_val sched_to_last_signal (init 0))
   = Some (Waiting, AtSignal, 101, Some (Woken, [CondSignal EvenT]))"
  by code_simp

lemma MAX_val_nonneg: "0 \<le> MAX_val"
  by (simp add: MAX_val_def)

lemma sched_full_length:
  "map_option (\<lambda>s. length (outputs (trace s))) (exec MAX_val sched_full (init 0)) = Some 100"
  by code_simp





section \<open>Properties of the polling printer\<close>

lemma c_rem_pos: "1 \<le> a \<Longrightarrow> c_rem a 2 = a mod 2"
  by (simp add: c_rem_def sgn_if)

lemma role_of_rem:
  "1 \<le> a \<Longrightarrow> c_rem a 2 = 1 \<longleftrightarrow> role_of a = OddT"
  "1 \<le> a \<Longrightarrow> c_rem a 2 = 0 \<longleftrightarrow> role_of a = EvenT"
  by (simp_all add: c_rem_pos role_of_def)

lemma round_robin_extend:
  "1 \<le> n \<Longrightarrow> role_of n = t \<Longrightarrow> round_robin (n - 1) @ [(t, n)] = round_robin n"
  using round_robin_snoc [of "n - 1"] by simp

lemmas binv_unfold =
  binv_def binv_thread_def tid_all bpc_of_def set_bpc_def in_bcs_def thread_arg_def label_def Let_def

lemma binv_init: "0 \<le> lim \<Longrightarrow> binv lim binit"
  by (simp add: binv_unfold binit_def round_robin_def)

lemma binv_step:
  assumes "binv lim s" "print_numbers lim t s = Some s'"
  shows "binv lim s'"
proof (cases t)
  case OddT
  with assms show ?thesis
    unfolding print_numbers_def binv_unfold
    by (cases "bpc_odd s"; clarsimp split: if_splits simp: role_of_rem round_robin_extend)
next
  case EvenT
  with assms show ?thesis
    unfolding print_numbers_def binv_unfold
    by (cases "bpc_even s"; clarsimp split: if_splits simp: role_of_rem round_robin_extend)
qed

lemma breachable_binv:
  assumes "breachable lim s" "0 \<le> lim"
  shows "binv lim s"
  using assms by (induction rule: breachable.induct) (auto intro: binv_init binv_step)

lemma helpful_step_odd:
  assumes "binv lim s" "helpful lim s = OddT" "\<not> bjoined s"
  shows "\<exists>s'. print_numbers lim OddT s = Some s' \<and> bpotential lim s' < bpotential lim s"
  using assms
  unfolding print_numbers_def binv_unfold helpful_def bjoined_def bpotential_def useful_def bweight_def
  by (cases "bpc_odd s"; cases "block s"; clarsimp split: if_splits simp: role_of_rem) arith+

lemma helpful_step_even:
  assumes "binv lim s" "helpful lim s = EvenT" "\<not> bjoined s"
  shows "\<exists>s'. print_numbers lim EvenT s = Some s' \<and> bpotential lim s' < bpotential lim s"
  using assms
  unfolding print_numbers_def binv_unfold helpful_def bjoined_def bpotential_def useful_def bweight_def
  by (cases "bpc_even s"; cases "block s"; clarsimp split: if_splits simp: role_of_rem) arith+

lemma helpful_step:
  assumes "binv lim s" "\<not> bjoined s"
  shows "\<exists>s'. print_numbers lim (helpful lim s) s = Some s' \<and> bpotential lim s' < bpotential lim s"
  using helpful_step_odd [OF assms(1) _ assms(2)] helpful_step_even [OF assms(1) _ assms(2)]
  by (cases "helpful lim s") simp_all

lemma bcompletes:
  "binv lim s \<Longrightarrow> \<exists>ts s'. bexec lim ts s = Some s' \<and> bjoined s'"
proof (induction "bpotential lim s" arbitrary: s rule: less_induct)
  case less
  show ?case
  proof (cases "bjoined s")
    case True
    then have "bexec lim [] s = Some s \<and> bjoined s" by simp
    then show ?thesis by blast
  next
    case False
    from helpful_step [OF less.prems False] obtain s1
      where s1: "print_numbers lim (helpful lim s) s = Some s1"
        "bpotential lim s1 < bpotential lim s"
      by blast
    from less.hyps [OF s1(2) binv_step [OF less.prems s1(1)]]
    obtain ts s' where "bexec lim ts s1 = Some s'" "bjoined s'" by blast
    with s1(1) have "bexec lim (helpful lim s # ts) s = Some s' \<and> bjoined s'" by simp
    then show ?thesis by blast
  qed
qed

lemma binv_prefix:
  assumes "binv lim s"
  shows "\<exists>n. 0 \<le> n \<and> n \<le> lim \<and> printed s = round_robin n"
proof (cases "\<forall>t. bpc_of t s \<noteq> BIncr")
  case True
  with assms have "printed s = round_robin (bcounter s - 1)" "1 \<le> bcounter s" "bcounter s \<le> lim + 1"
    by (simp_all add: binv_def)
  then have "0 \<le> bcounter s - 1 \<and> bcounter s - 1 \<le> lim \<and> printed s = round_robin (bcounter s - 1)"
    by simp
  then show ?thesis by blast
next
  case False
  then obtain t where t: "bpc_of t s = BIncr" by blast
  from assms have "binv_thread lim t s" "1 \<le> bcounter s" by (cases t; simp add: binv_def)+
  with t have "0 \<le> bcounter s \<and> bcounter s \<le> lim \<and> printed s = round_robin (bcounter s)"
    by (simp add: binv_thread_def)
  then show ?thesis by blast
qed

lemma binv_joined:
  assumes "binv lim s" "bjoined s"
  shows "printed s = round_robin lim"
proof -
  from assms have "lim < bcounter s" "bcounter s \<le> lim + 1"
    by (simp_all add: binv_def binv_thread_def bjoined_def bpc_of_def)
  then have c: "bcounter s = lim + 1" by simp
  from assms have "printed s = round_robin (bcounter s - 1)"
    by (simp add: binv_def bjoined_def bpc_of_def tid_all)
  with c show ?thesis by simp
qed

lemma bexec_append:
  "bexec lim (ts @ us) s = (case bexec lim ts s of None \<Rightarrow> None | Some s' \<Rightarrow> bexec lim us s')"
  by (induction ts arbitrary: s) (auto split: option.splits)

lemma bexec_reachable:
  "breachable lim s \<Longrightarrow> bexec lim ts s = Some s' \<Longrightarrow> breachable lim s'"
  by (induction ts arbitrary: s) (auto split: option.splits intro: breach_step)

subsection \<open>Concrete runs\<close>

lemma spin_cycle: "bexec MAX_val spin binit = Some binit"
  by code_simp

text \<open>The even thread can poll any number of times while the odd thread never runs.\<close>

lemma spin_forever: "bexec MAX_val (concat (replicate k spin)) binit = Some binit"
  by (induction k) (simp_all add: bexec_append spin_cycle)

lemma bsched_full_run:
  "map_option bjoined (bexec MAX_val bsched_full binit) = Some True"
  by code_simp

section \<open>Properties of the letter writer\<close>

lemma letters_upto_0 [simp]: "letters_upto 0 = []"
  by (simp add: letters_upto_def)

lemma letters_upto_snoc: "0 \<le> n \<Longrightarrow> letters_upto (n + 1) = letters_upto n @ [letter_at n]"
  using upto_rec2 [of 0 n] by (simp add: letters_upto_def)

lemma letter_at_caps: "letter_at (2 * k) = (Caps, char_of (65 + k))"
  by (simp add: letter_at_def)

lemma letter_at_smalls: "letter_at (2 * k + 1) = (Smalls, char_of (97 + k))"
  by (simp add: letter_at_def)

lemma write_caps_letter:
  assumes "c - 65 = n" "0 \<le> n" "f = letters_upto (2 * n)"
  shows "f @ [(Caps, char_of c)] = letters_upto (2 * n + 1)"
proof -
  from assms(1) have "c = 65 + n" by simp
  with assms(2,3) show ?thesis
    by (simp add: letters_upto_snoc letter_at_caps)
qed

lemma write_smalls_letter:
  assumes "c - 97 = n" "0 \<le> n" "f = letters_upto (2 * n + 1)"
  shows "f @ [(Smalls, char_of c)] = letters_upto (2 * n + 2)"
proof -
  from assms(1) have "c = 97 + n" by simp
  moreover have "2 * n + 2 = (2 * n + 1) + 1" by simp
  then have "letters_upto (2 * n + 2) = letters_upto (2 * n + 1) @ [letter_at (2 * n + 1)]"
    using letters_upto_snoc [of "2 * n + 1"] assms(2) by (simp only:)
  ultimately show ?thesis
    using assms(3) by (simp add: letter_at_smalls)
qed

lemmas winv_unfold =
  winv_def n_caps_def n_smalls_def wcond_signal_def Let_def

lemma pending_outside: "\<not> in_wcs p \<Longrightarrow> pending p = 0"
  by (cases p) simp_all

lemma winv_init: "winv (winit k)"
  by (simp add: winv_unfold winit_def)

lemma caps_write:
  assumes "65 \<le> c" "32 + c = d + (w - p)" "p = 0"
  shows "letters_upto (c + (d + w) - 162) @ [(Caps, char_of c)] = letters_upto (c + (d + w) - 161)"
proof -
  from assms have "c + (d + w) - 162 = 2 * (c - 65)" "c + (d + w) - 161 = 2 * (c - 65) + 1"
    by simp_all
  with write_caps_letter [of c "c - 65" "letters_upto (2 * (c - 65))"] assms(1)
  show ?thesis by simp
qed

lemma smalls_write:
  assumes "97 \<le> d" "31 + (c + (w - p)) = d" "p = 0"
  shows "letters_upto (c + (w + d) - 162) @ [(Smalls, char_of d)] = letters_upto (c + (w + d) - 161)"
proof -
  from assms have e: "c + (w + d) - 162 = 2 * (d - 97) + 1" "c + (w + d) - 161 = 2 * (d - 97) + 2"
    by simp_all
  from write_smalls_letter [of d "d - 97" "letters_upto (2 * (d - 97) + 1)"] assms(1)
  have "letters_upto (2 * (d - 97) + 1) @ [(Smalls, char_of d)] = letters_upto (2 * (d - 97) + 2)"
    by simp
  then show ?thesis by (simp only: e)
qed

lemma winv_write_caps:
  assumes "winv s" "write_caps s = Some s'"
  shows "winv s'"
  using assms unfolding write_caps_def winv_unfold
  apply (cases "pc_caps s"; clarsimp split: if_splits)
  apply (rule caps_write; simp add: pending_outside)
  done

lemma winv_write_smalls:
  assumes "winv s" "write_smalls s = Some s'"
  shows "winv s'"
  using assms unfolding write_smalls_def winv_unfold
  apply (cases "pc_smalls s"; clarsimp split: if_splits)
  apply (rule smalls_write; simp add: pending_outside)
  done

lemma winv_spurious:
  assumes "winv s" "wspurious_wakeup t s = Some s'"
  shows "winv s'"
  using assms unfolding wspurious_wakeup_def winv_unfold wpc_of_def
  by (cases t; clarsimp split: if_splits)

lemma winv_step: "winv s \<Longrightarrow> wstep a s = Some s' \<Longrightarrow> winv s'"
  unfolding wstep_def
  by (auto split: waction.splits wid.splits intro: winv_write_caps winv_write_smalls winv_spurious)

lemma wreachable_winv: "wreachable s \<Longrightarrow> winv s"
  by (induction rule: wreachable.induct) (auto intro: winv_init winv_step)

lemma wpotential_write_caps:
  assumes "winv s" "write_caps s = Some s'"
  shows "wpotential s' < wpotential s"
  using assms unfolding write_caps_def winv_unfold wpotential_def wweight_def
  by (cases "pc_caps s"; clarsimp split: if_splits) arith+

lemma wpotential_write_smalls:
  assumes "winv s" "write_smalls s = Some s'"
  shows "wpotential s' < wpotential s"
  using assms unfolding write_smalls_def winv_unfold wpotential_def wweight_def
  by (cases "pc_smalls s"; clarsimp split: if_splits) arith+

lemma wpotential_spurious:
  assumes "wspurious_wakeup t s = Some s'"
  shows "wpotential s' < wpotential s"
  using assms unfolding wspurious_wakeup_def wpotential_def wweight_def wpc_of_def
  by (cases t; clarsimp split: if_splits) arith+

lemma wpotential_step:
  "winv s \<Longrightarrow> wstep a s = Some s' \<Longrightarrow> wpotential s' < wpotential s"
  unfolding wstep_def
  by (auto split: waction.splits wid.splits
           intro: wpotential_write_caps wpotential_write_smalls wpotential_spurious)

lemma write_caps_enabled:
  "write_caps s = None \<longleftrightarrow>
     pc_caps s = WReturned \<or> pc_caps s = WWaiting
     \<or> ((pc_caps s = WLock \<or> pc_caps s = WWoken) \<and> mutex s \<noteq> None)"
  unfolding write_caps_def by (cases "pc_caps s"; simp)

lemma write_smalls_enabled:
  "write_smalls s = None \<longleftrightarrow>
     pc_smalls s = WReturned \<or> pc_smalls s = WWaiting
     \<or> ((pc_smalls s = WLock \<or> pc_smalls s = WWoken) \<and> mutex s \<noteq> None)"
  unfolding write_smalls_def by (cases "pc_smalls s"; simp)

lemma winv_not_both_stuck:
  assumes "winv s" "pc_caps s = WReturned \<or> pc_caps s = WWaiting"
    "pc_smalls s = WReturned \<or> pc_smalls s = WWaiting"
  shows "wjoined s"
proof -
  from assms(1) have
    eq: "n_caps s - pending (pc_caps s) = n_smalls s - pending (pc_smalls s) + turn s"
    and cw: "pc_caps s = WWaiting \<longrightarrow> pc_smalls s = WSetTurn \<or> pc_smalls s = WSignal \<or> turn s = 1"
    and sw: "pc_smalls s = WWaiting \<longrightarrow> pc_caps s = WSetTurn \<or> pc_caps s = WSignal \<or> turn s = 0"
    and cr: "pc_caps s = WReturned \<longrightarrow> ch_caps s = 91"
    and sr: "pc_smalls s = WReturned \<longrightarrow> ch_smalls s = 123"
    and cb: "pc_caps s \<noteq> WLoop \<and> pc_caps s \<noteq> WReturned \<longrightarrow> ch_caps s \<le> 90"
    and sb: "pc_smalls s \<noteq> WLoop \<and> pc_smalls s \<noteq> WReturned \<longrightarrow> ch_smalls s \<le> 122"
    unfolding winv_def by simp_all
  from assms(2,3) consider
      (rr) "pc_caps s = WReturned" "pc_smalls s = WReturned"
    | (ww) "pc_caps s = WWaiting" "pc_smalls s = WWaiting"
    | (wr) "pc_caps s = WWaiting" "pc_smalls s = WReturned"
    | (rw) "pc_caps s = WReturned" "pc_smalls s = WWaiting"
    by blast
  then show ?thesis
  proof cases
    case rr
    then show ?thesis by (simp add: wjoined_def)
  next
    case ww
    with cw sw show ?thesis by simp
  next
    case wr
    with cw sr cb eq show ?thesis by (simp add: n_caps_def n_smalls_def)
  next
    case rw
    with sw cr sb eq show ?thesis by (simp add: n_caps_def n_smalls_def)
  qed
qed

lemma winv_mutex:
  assumes "winv s"
  shows "in_wcs (pc_caps s) \<longleftrightarrow> mutex s = Some Caps"
    and "in_wcs (pc_smalls s) \<longleftrightarrow> mutex s = Some Smalls"
  using assms by (simp_all add: winv_def)

lemma in_wcs_enabled:
  "in_wcs p \<Longrightarrow> p \<noteq> WReturned \<and> p \<noteq> WWaiting \<and> p \<noteq> WLock \<and> p \<noteq> WWoken"
  by (cases p) simp_all

lemma wno_deadlock:
  assumes "winv s" "\<not> wjoined s"
  shows "\<exists>t s'. wstep (WRun t) s = Some s'"
proof -
  have "write_caps s \<noteq> None \<or> write_smalls s \<noteq> None"
  proof (cases "mutex s")
    case None
    show ?thesis
    proof (rule ccontr)
      assume "\<not> ?thesis"
      with None have "pc_caps s = WReturned \<or> pc_caps s = WWaiting"
        "pc_smalls s = WReturned \<or> pc_smalls s = WWaiting"
        by (simp_all add: write_caps_enabled write_smalls_enabled)
      from winv_not_both_stuck [OF assms(1) this] assms(2) show False by simp
    qed
  next
    case (Some t)
    show ?thesis
    proof (cases t)
      case Caps
      with Some winv_mutex(1) [OF assms(1)] have "in_wcs (pc_caps s)" by simp
      from in_wcs_enabled [OF this] show ?thesis by (simp add: write_caps_enabled)
    next
      case Smalls
      with Some winv_mutex(2) [OF assms(1)] have "in_wcs (pc_smalls s)" by simp
      from in_wcs_enabled [OF this] show ?thesis by (simp add: write_smalls_enabled)
    qed
  qed
  then show ?thesis
    unfolding wstep_def by (auto intro: exI [of _ Caps] exI [of _ Smalls])
qed


lemma wexec_reachable: "wreachable s \<Longrightarrow> wexec as s = Some s' \<Longrightarrow> wreachable s'"
  by (induction as arbitrary: s) (auto split: option.splits intro: wreach_step)

lemma wexec_potential:
  "winv s \<Longrightarrow> wexec as s = Some s' \<Longrightarrow> length as + wpotential s' \<le> wpotential s"
proof (induction as arbitrary: s)
  case Nil
  then show ?case by simp
next
  case (Cons a as)
  from Cons.prems(2) obtain s1 where s1: "wstep a s = Some s1" "wexec as s1 = Some s'"
    by (auto split: option.splits)
  from Cons.IH [OF winv_step [OF Cons.prems(1) s1(1)] s1(2)] wpotential_step [OF Cons.prems(1) s1(1)]
  show ?case by simp
qed

lemma wcompletes:
  "winv s \<Longrightarrow> \<exists>as s'. wexec as s = Some s' \<and> wjoined s'"
proof (induction "wpotential s" arbitrary: s rule: less_induct)
  case less
  show ?case
  proof (cases "wjoined s")
    case True
    then have "wexec [] s = Some s \<and> wjoined s" by simp
    then show ?thesis by blast
  next
    case False
    from wno_deadlock [OF less.prems False] obtain t s1 where s1: "wstep (WRun t) s = Some s1"
      by blast
    from less.hyps [OF wpotential_step [OF less.prems s1] winv_step [OF less.prems s1]]
    obtain as s' where "wexec as s1 = Some s'" "wjoined s'" by blast
    with s1 have "wexec (WRun t # as) s = Some s' \<and> wjoined s'" by simp
    then show ?thesis by blast
  qed
qed

lemma letters_52: "map snd (letters_upto 52) = alphabet"
  by code_simp

lemma letters_upto_take: "0 \<le> n \<Longrightarrow> n \<le> m \<Longrightarrow> letters_upto n = take (nat n) (letters_upto m)"
proof -
  assume a: "0 \<le> n" "n \<le> m"
  have "[0..m - 1] = [0..n - 1] @ [n..m - 1]"
    using upto_split2 [of 0 "n - 1" "m - 1"] a by (cases "n = 0") simp_all
  then show ?thesis
    by (simp add: letters_upto_def a)
qed

lemma winv_count:
  assumes "winv s"
  shows "0 \<le> n_caps s + n_smalls s" "n_caps s + n_smalls s \<le> 52"
proof -
  have w: "0 \<le> wrote p \<and> wrote p \<le> 1" "p = WReturned \<or> p = WLoop \<longrightarrow> wrote p = 0" for p
    by (cases p; simp)+
  from assms have b: "65 \<le> ch_caps s" "97 \<le> ch_smalls s" "ch_caps s \<le> 91" "ch_smalls s \<le> 123"
    "pc_caps s \<noteq> WLoop \<and> pc_caps s \<noteq> WReturned \<longrightarrow> ch_caps s \<le> 90"
    "pc_smalls s \<noteq> WLoop \<and> pc_smalls s \<noteq> WReturned \<longrightarrow> ch_smalls s \<le> 122"
    unfolding winv_def by simp_all
  from b w(1) [of "pc_caps s"] w(1) [of "pc_smalls s"]
  show "0 \<le> n_caps s + n_smalls s" by (simp add: n_caps_def n_smalls_def)
  have "n_caps s \<le> 26"
    using b w(1) [of "pc_caps s"] w(2) [of "pc_caps s"] unfolding n_caps_def
    by (cases "pc_caps s = WLoop \<or> pc_caps s = WReturned") auto
  moreover have "n_smalls s \<le> 26"
    using b w(1) [of "pc_smalls s"] w(2) [of "pc_smalls s"] unfolding n_smalls_def
    by (cases "pc_smalls s = WLoop \<or> pc_smalls s = WReturned") auto
  ultimately show "n_caps s + n_smalls s \<le> 52" by simp
qed

lemma winv_prefix:
  assumes "winv s"
  shows "\<exists>n\<le>52. wlog s = take n (letters_upto 52) \<and> fp s = take n alphabet"
proof -
  let ?n = "n_caps s + n_smalls s"
  from assms have "wlog s = letters_upto ?n" "fp s = map snd (wlog s)"
    by (simp_all add: winv_def)
  with letters_upto_take [OF winv_count [OF assms]]
  have "wlog s = take (nat ?n) (letters_upto 52)" "fp s = take (nat ?n) alphabet"
    by (simp_all add: take_map flip: letters_52)
  moreover have "nat ?n \<le> 52" using winv_count [OF assms] by simp
  ultimately show ?thesis by blast
qed



lemma winv_holds_turn:
  assumes "winv s" "holds_turn (wpc_of t s)"
  shows "turn s = turn_value t \<and> mutex s = Some t"
proof (cases t)
  case Caps
  with assms(2) have h: "holds_turn (pc_caps s)" by (simp add: wpc_of_def)
  then have "in_wcs (pc_caps s)" by (cases "pc_caps s") simp_all
  with assms(1) h Caps show ?thesis by (simp add: winv_def turn_value_def)
next
  case Smalls
  with assms(2) have h: "holds_turn (pc_smalls s)" by (simp add: wpc_of_def)
  then have "in_wcs (pc_smalls s)" by (cases "pc_smalls s") simp_all
  with assms(1) h Smalls show ?thesis by (simp add: winv_def turn_value_def)
qed

lemma wrun_writes:
  assumes "wstep (WRun t) s = Some s'" "fp s' \<noteq> fp s"
  shows "wpc_of t s = WFputc \<and> fp s' = fp s @ [char_of (ch_of t s)]"
proof (cases t)
  case Caps
  with assms show ?thesis
    unfolding wstep_def write_caps_def wpc_of_def ch_of_def wcond_signal_def
    by (cases "pc_caps s"; clarsimp split: if_splits)
next
  case Smalls
  with assms show ?thesis
    unfolding wstep_def write_smalls_def wpc_of_def ch_of_def wcond_signal_def
    by (cases "pc_smalls s"; clarsimp split: if_splits)
qed

lemma wrun_from_woken:
  assumes "wpc_of t s = WWoken" "wstep (WRun t) s = Some s'"
  shows "wpc_of t s' = WGuard \<and> fp s' = fp s \<and> turn s' = turn s"
  using assms unfolding wstep_def write_caps_def write_smalls_def wpc_of_def
  by (cases t; clarsimp split: if_splits)

lemma wrun_from_guard:
  assumes "wpc_of t s = WGuard" "turn s \<noteq> turn_value t" "wstep (WRun t) s = Some s'"
  shows "wpc_of t s' = WWaiting \<and> fp s' = fp s \<and> turn s' = turn s"
  using assms unfolding wstep_def write_caps_def write_smalls_def wpc_of_def turn_value_def
  by (cases t; clarsimp split: if_splits)

lemma wspurious_effect:
  assumes "wspurious_wakeup t s = Some s'"
  shows "wpc_of t s' = WWoken \<and> fp s' = fp s \<and> turn s' = turn s"
  using assms unfolding wspurious_wakeup_def wpc_of_def
  by (cases t; clarsimp split: if_splits)

lemma wwhole_step:
  assumes "wpc_of t s = WPrintf"
  shows "\<exists>s4. wexec [WRun t, WRun t, WRun t, WRun t] s = Some s4
              \<and> fp s4 = fp s @ [char_of (ch_of t s)] \<and> turn s4 = turn_value (wother t)
              \<and> wpc_of t s4 = WSignal"
  using assms
  by (cases t)
     (simp_all add: wstep_def write_caps_def write_smalls_def wpc_of_def ch_of_def turn_value_def)

subsection \<open>Concrete runs of the letter writer\<close>



lemma wsched_smalls_waits_run:
  "map_option (\<lambda>s. (wpc_of Smalls s, map_option (\<lambda>s. ()) (wspurious_wakeup Smalls s)))
     (wexec wsched_smalls_waits (winit 1)) = Some (WWaiting, Some ())"
  by code_simp

lemma wsched_spurious_run:
  "map_option (\<lambda>s. (wpc_of Smalls s, turn s \<noteq> turn_value Smalls,
                    map_option (\<lambda>s. ()) (wstep (WRun Smalls) s)))
     (wexec wsched_spurious (winit 1)) = Some (WGuard, True, Some ())"
  by code_simp

lemma wsched_caps_writes_run:
  "map_option (wpc_of Caps) (wexec wsched_caps_writes (winit 0)) = Some WPrintf"
  by code_simp

lemma length_letters_upto [simp]: "length (letters_upto n) = nat n"
  by (simp add: letters_upto_def)







lemma turn_value_unique:
  assumes "winv s"
  shows "\<exists>!t. turn s = turn_value t"
proof -
  from assms have "turn s = 0 \<or> turn s = 1" by (simp add: winv_def)
  then show ?thesis
  proof
    assume "turn s = 0"
    then have "turn s = turn_value Caps" "turn s \<noteq> turn_value Smalls"
      by (simp_all add: turn_value_def)
    then show ?thesis by (metis wid.exhaust)
  next
    assume "turn s = 1"
    then have "turn s = turn_value Smalls" "turn s \<noteq> turn_value Caps"
      by (simp_all add: turn_value_def)
    then show ?thesis by (metis wid.exhaust)
  qed
qed

lemma wsched_full_length:
  "map_option (\<lambda>s. length (wlog s)) (wexec wsched_full (winit 0)) = Some 52"
  by code_simp




section \<open>The claims\<close>




text \<open>
  Claim C2, as amended. The program never issues a notify-all. On the transition into the
  terminal state (the step that prints \<open>lim\<close>, for \<open>lim \<ge> 1\<close>) the acting thread issues
  exactly one \<open>pthread_cond_signal\<close>, a notify-one, and nothing else follows it in a
  finished run. Whenever a thread executes its \<open>pthread_cond_signal\<close>, the only other
  participant is not blocked on the condition afterwards.
\<close>

theorem terminal_transition_signals_once:
  assumes "0 \<le> lim" "reachable lim s"
  shows "(\<forall>t. CondBroadcast t \<notin> set (trace s))
         \<and> (joined s \<and> 1 \<le> lim \<longrightarrow> after_terminal lim (trace s) = [CondSignal (role_of lim)])
         \<and> (\<forall>t s'. pc_of t s = AtSignal \<and> step lim (Run t) s = Some s' \<longrightarrow>
               pc_of (other t) s' \<noteq> Waiting \<and> trace s' = trace s @ [CondSignal t])"
proof -
  have i: "inv lim s" using assms by (rule reachable_inv [rotated])
  have 1: "\<forall>t. CondBroadcast t \<notin> set (trace s)"
    using inv_no_broadcast [OF i] by blast
  have 2: "joined s \<and> 1 \<le> lim \<longrightarrow> after_terminal lim (trace s) = [CondSignal (role_of lim)]"
    using inv_joined(2) [OF i] after_terminal_full_trace by simp
  have 3: "\<forall>t s'. pc_of t s = AtSignal \<and> step lim (Run t) s = Some s' \<longrightarrow>
               pc_of (other t) s' \<noteq> Waiting \<and> trace s' = trace s @ [CondSignal t]"
    using run_signal by blast
  from 1 2 3 show ?thesis by blast
qed

theorem terminal_transition_signals_once_witness:
  "0 \<le> MAX_val \<and> 1 \<le> MAX_val
   \<and> (case exec MAX_val sched_blocking (init 0) of
        None \<Rightarrow> False
      | Some s \<Rightarrow> reachable MAX_val s \<and> joined s
           \<and> after_terminal MAX_val (trace s) = [CondSignal (role_of MAX_val)])"
proof -
  have l1: "1 \<le> MAX_val" by (simp add: MAX_val_def)
  obtain s where s: "exec MAX_val sched_blocking (init 0) = Some s" and j: "joined s"
    using map_option_SomeD [OF sched_blocking_run] by blast
  have r: "reachable MAX_val s"
    using exec_reachable [OF reach_init s] .
  from terminal_transition_signals_once [OF MAX_val_nonneg r] j l1
  have "after_terminal MAX_val (trace s) = [CondSignal (role_of MAX_val)]"
    by blast
  with MAX_val_nonneg l1 s r j show ?thesis by simp
qed

text \<open>
  Claim C2, as stated, fails. In the run \<open>sched_blocking\<close> with \<open>MAX = 100\<close> the odd
  thread is blocked on the condition when the even thread has printed 100 and made the
  counter 101; the even thread then calls \<open>pthread_cond_signal\<close>, which wakes the odd
  thread, and both return. The only notification on the terminal transition is that
  notify-one: no notify-all is issued.
\<close>

theorem notify_all_on_terminal_counterexample:
  "(case exec MAX_val sched_to_last_signal (init 0) of
      None \<Rightarrow> False
    | Some s \<Rightarrow>
        pc_odd s = Waiting \<and> pc_even s = AtSignal \<and> counter s = 101
        \<and> map_option (\<lambda>s'. (pc_odd s', drop 199 (trace s'))) (step MAX_val (Run EvenT) s)
            = Some (Woken, [CondSignal EvenT]))
   \<and> (case exec MAX_val sched_blocking (init 0) of
        None \<Rightarrow> False
      | Some s \<Rightarrow>
          joined s \<and> \<not> notify_all_on_terminal MAX_val (trace s)
          \<and> after_terminal MAX_val (trace s) = [CondSignal EvenT])"
proof -
  obtain s where "exec MAX_val sched_to_last_signal (init 0) = Some s"
    "pc_odd s = Waiting" "pc_even s = AtSignal" "counter s = 101"
    "map_option (\<lambda>s'. (pc_odd s', drop 199 (trace s'))) (step MAX_val (Run EvenT) s)
       = Some (Woken, [CondSignal EvenT])"
    using map_option_SomeD [OF sched_to_last_signal_run] by blast
  moreover obtain s' where "exec MAX_val sched_blocking (init 0) = Some s'" "joined s'"
    "\<not> notify_all_on_terminal MAX_val (trace s')"
    "after_terminal MAX_val (trace s') = [CondSignal EvenT]"
    using map_option_SomeD [OF sched_blocking_run] by blast
  ultimately show ?thesis by simp
qed

text \<open>
  Claim C3. In every reachable state the turn flag designates exactly one participant.
  A thread that is printing, incrementing the counter or setting the flag owns the turn
  and holds the mutex, and while a thread holds the mutex the other thread cannot execute
  any statement. A step that starts at the \<open>printf\<close> emits the current counter value
  for the acting thread, adds exactly one to the counter and hands the turn to the other
  role. The emitted step indices are \<open>1, 2, \<dots>, n\<close> with nothing skipped or repeated,
  where \<open>n\<close> is the counter or the counter minus one; when the mutex is free \<open>n\<close> is the
  counter minus one and the turn belongs to the role of the counter. In the letter writer
  \<open>turn\<close> is always 0 or 1 and so designates exactly one thread; a thread between its
  guard and its assignment to \<open>turn\<close> owns the turn and holds the mutex; and a step that
  starts at the \<open>printf\<close> appends the thread's current character to the stream and
  hands the turn to the other thread.
\<close>

theorem turn_ownership_transfer:
  assumes "0 \<le> lim" "reachable lim s" "wreachable w"
  shows "(\<exists>!t. my_turn t s)
         \<and> (\<forall>t. pc_of t s = AtPrint \<or> pc_of t s = AtIncr \<or> pc_of t s = AtSetTurn \<longrightarrow>
               my_turn t s \<and> lock s = Some t)
         \<and> (\<forall>t. lock s = Some t \<longrightarrow> step lim (Run (other t)) s = None)
         \<and> (\<forall>t. pc_of t s = AtPrint \<longrightarrow>
               (\<exists>s3. exec lim [Run t, Run t, Run t] s = Some s3
                  \<and> counter s3 = counter s + 1 \<and> my_turn (other t) s3
                  \<and> outputs (trace s3) = outputs (trace s) @ [(t, counter s)]
                  \<and> pc_of t s3 = AtSignal))
         \<and> (\<exists>n. (n = counter s - 1 \<or> n = counter s) \<and> map snd (outputs (trace s)) = [1..n])
         \<and> (lock s = None \<longrightarrow>
               map snd (outputs (trace s)) = [1..counter s - 1]
               \<and> my_turn (role_of (counter s)) s)
         \<and> (\<exists>!u. turn w = turn_value u)
         \<and> (\<forall>u. holds_turn (wpc_of u w) \<longrightarrow> turn w = turn_value u \<and> mutex w = Some u)
         \<and> (\<forall>u. wpc_of u w = WPrintf \<longrightarrow>
               (\<exists>w4. wexec [WRun u, WRun u, WRun u, WRun u] w = Some w4
                  \<and> fp w4 = fp w @ [char_of (ch_of u w)] \<and> turn w4 = turn_value (wother u)
                  \<and> wpc_of u w4 = WSignal))"
proof -
  have wi: "winv w" using assms(3) by (rule wreachable_winv)
  have 7: "\<exists>!u. turn w = turn_value u" using turn_value_unique [OF wi] .
  have 8: "\<forall>u. holds_turn (wpc_of u w) \<longrightarrow> turn w = turn_value u \<and> mutex w = Some u"
    using winv_holds_turn [OF wi] by blast
  have 9: "\<forall>u. wpc_of u w = WPrintf \<longrightarrow>
               (\<exists>w4. wexec [WRun u, WRun u, WRun u, WRun u] w = Some w4
                  \<and> fp w4 = fp w @ [char_of (ch_of u w)] \<and> turn w4 = turn_value (wother u)
                  \<and> wpc_of u w4 = WSignal)"
    using wwhole_step by blast
  have i: "inv lim s" using assms(1,2) by (rule reachable_inv [rotated])
  have 1: "\<exists>!t. my_turn t s" by (rule my_turn_unique)
  have 2: "\<forall>t. pc_of t s = AtPrint \<or> pc_of t s = AtIncr \<or> pc_of t s = AtSetTurn \<longrightarrow>
               my_turn t s \<and> lock s = Some t"
    using inv_acting [OF i] by blast
  have 3: "\<forall>t. lock s = Some t \<longrightarrow> step lim (Run (other t)) s = None"
    using other_blocked [OF i] by blast
  have 4: "\<forall>t. pc_of t s = AtPrint \<longrightarrow>
               (\<exists>s3. exec lim [Run t, Run t, Run t] s = Some s3
                  \<and> counter s3 = counter s + 1 \<and> my_turn (other t) s3
                  \<and> outputs (trace s3) = outputs (trace s) @ [(t, counter s)]
                  \<and> pc_of t s3 = AtSignal)"
    using whole_step by blast
  from inv_prefix [OF i] obtain n where "n = counter s - 1 \<or> n = counter s"
    "outputs (trace s) = round_robin n" by blast
  then have 5: "\<exists>n. (n = counter s - 1 \<or> n = counter s) \<and> map snd (outputs (trace s)) = [1..n]"
    using map_snd_round_robin by metis
  have 6: "lock s = None \<longrightarrow>
               map snd (outputs (trace s)) = [1..counter s - 1]
               \<and> my_turn (role_of (counter s)) s"
    using inv_quiet [OF i] map_snd_round_robin by metis
  from 1 2 3 4 5 6 7 8 9 show ?thesis by blast
qed

theorem turn_ownership_transfer_witness:
  "0 \<le> MAX_val
   \<and> (case exec MAX_val sched_odd_prints (init 0) of
        None \<Rightarrow> False
      | Some s \<Rightarrow>
          reachable MAX_val s \<and> pc_of OddT s = AtPrint
          \<and> my_turn OddT s \<and> lock s = Some OddT
          \<and> step MAX_val (Run EvenT) s = None
          \<and> (\<exists>s3. exec MAX_val [Run OddT, Run OddT, Run OddT] s = Some s3
                \<and> counter s3 = counter s + 1 \<and> my_turn EvenT s3
                \<and> outputs (trace s3) = outputs (trace s) @ [(OddT, counter s)]))
   \<and> (case wexec wsched_caps_writes (winit 0) of
        None \<Rightarrow> False
      | Some w \<Rightarrow>
          wreachable w \<and> wpc_of Caps w = WPrintf
          \<and> turn w = turn_value Caps \<and> mutex w = Some Caps
          \<and> (\<exists>w4. wexec [WRun Caps, WRun Caps, WRun Caps, WRun Caps] w = Some w4
                \<and> fp w4 = fp w @ [char_of (ch_of Caps w)] \<and> turn w4 = turn_value Smalls))"
proof -
  obtain w where w: "wexec wsched_caps_writes (winit 0) = Some w"
    and wp: "wpc_of Caps w = WPrintf"
    using map_option_SomeD [OF wsched_caps_writes_run] by blast
  have wr: "wreachable w"
    using wexec_reachable [OF wreach_init w] .
  obtain s where s: "exec MAX_val sched_odd_prints (init 0) = Some s"
    and p: "pc_of OddT s = AtPrint"
    using map_option_SomeD [OF sched_odd_prints_run] by blast
  have r: "reachable MAX_val s"
    using exec_reachable [OF reach_init s] .
  note t = turn_ownership_transfer [OF MAX_val_nonneg r wr]
  from wp have "holds_turn (wpc_of Caps w)" by simp
  with t have d: "turn w = turn_value Caps \<and> mutex w = Some Caps" by blast
  from t wp have e: "\<exists>w4. wexec [WRun Caps, WRun Caps, WRun Caps, WRun Caps] w = Some w4
                \<and> fp w4 = fp w @ [char_of (ch_of Caps w)] \<and> turn w4 = turn_value (wother Caps)"
    by blast
  from t p have a: "my_turn OddT s \<and> lock s = Some OddT" by blast
  with t have b: "step MAX_val (Run (other OddT)) s = None" by blast
  from t p have c: "\<exists>s3. exec MAX_val [Run OddT, Run OddT, Run OddT] s = Some s3
                \<and> counter s3 = counter s + 1 \<and> my_turn (other OddT) s3
                \<and> outputs (trace s3) = outputs (trace s) @ [(OddT, counter s)]"
    by blast
  from MAX_val_nonneg s r p a b c w wr wp d e show ?thesis by simp
qed

text \<open>
  Claim C4. For every \<open>lim \<ge> 0\<close> and from every reachable state: as long as a thread
  has not returned, some thread can execute a statement (no deadlock, and no spurious
  wake-up is needed for that); every run has at most \<open>potential lim s\<close> steps, so no run
  goes on forever; a run that ends with both threads returned, where \<open>pthread_join\<close>
  returns in \<open>main\<close>, exists. A thread blocked on the condition after the terminal
  transition has the other thread's signal pending. With \<open>lim = 0\<close> nothing is ever
  emitted. Limits that are not a multiple of 2 are not special. The letter writer, whose
  two loops have 26 iterations each, likewise has no deadlock, only runs of bounded length,
  and a run to the state where both threads have returned.
\<close>

theorem all_tasks_terminate:
  assumes "0 \<le> lim" "reachable lim s" "wreachable w"
  shows "(\<not> joined s \<longrightarrow> (\<exists>t s'. step lim (Run t) s = Some s'))
         \<and> (\<forall>as s'. exec lim as s = Some s' \<longrightarrow> length as \<le> potential lim s)
         \<and> (\<exists>as s'. exec lim as s = Some s' \<and> joined s')
         \<and> (\<forall>t. pc_of t s = Waiting \<and> lim < counter s \<longrightarrow>
               pc_of (other t) s = AtSetTurn \<or> pc_of (other t) s = AtSignal)
         \<and> (lim = 0 \<longrightarrow> trace s = [])
         \<and> (\<not> wjoined w \<longrightarrow> (\<exists>u w'. wstep (WRun u) w = Some w'))
         \<and> (\<forall>as w'. wexec as w = Some w' \<longrightarrow> length as \<le> wpotential w)
         \<and> (\<exists>as w'. wexec as w = Some w' \<and> wjoined w')"
proof -
  have wi: "winv w" using assms(3) by (rule wreachable_winv)
  have 6: "\<not> wjoined w \<longrightarrow> (\<exists>u w'. wstep (WRun u) w = Some w')"
    using wno_deadlock [OF wi] by blast
  have 7: "\<forall>as w'. wexec as w = Some w' \<longrightarrow> length as \<le> wpotential w"
    using wexec_potential [OF wi] by fastforce
  have 8: "\<exists>as w'. wexec as w = Some w' \<and> wjoined w'"
    using wcompletes [OF wi] .
  have i: "inv lim s" using assms(1,2) by (rule reachable_inv [rotated])
  have 1: "\<not> joined s \<longrightarrow> (\<exists>t s'. step lim (Run t) s = Some s')"
    using no_deadlock [OF i] by blast
  have 2: "\<forall>as s'. exec lim as s = Some s' \<longrightarrow> length as \<le> potential lim s"
    using exec_potential [OF i] by fastforce
  have 3: "\<exists>as s'. exec lim as s = Some s' \<and> joined s'"
    using completes [OF i] .
  have 4: "\<forall>t. pc_of t s = Waiting \<and> lim < counter s \<longrightarrow>
               pc_of (other t) s = AtSetTurn \<or> pc_of (other t) s = AtSignal"
    using inv_waiting_terminal [OF i] by blast
  have 5: "lim = 0 \<longrightarrow> trace s = []"
  proof
    assume z: "lim = 0"
    from inv_prefix [OF i] obtain n where "0 \<le> n" "n \<le> lim" "n = counter s - 1 \<or> n = counter s"
      by blast
    with z i have c: "counter s = 1" by (simp add: inv_def)
    from inv_trace [OF i] c z show "trace s = []" by auto
  qed
  from 1 2 3 4 5 6 7 8 show ?thesis by blast
qed

theorem all_tasks_terminate_witness:
  "0 \<le> MAX_val \<and> reachable MAX_val (init 0) \<and> \<not> joined (init 0)
   \<and> (\<exists>t s'. step MAX_val (Run t) (init 0) = Some s')
   \<and> (\<exists>as s'. exec MAX_val as (init 0) = Some s' \<and> joined s')
   \<and> (case exec MAX_val sched_full (init 0) of
        None \<Rightarrow> False
      | Some s' \<Rightarrow> joined s' \<and> length sched_full \<le> potential MAX_val (init 0))
   \<and> (case exec 0 sched_zero (init 0) of
        None \<Rightarrow> False
      | Some s \<Rightarrow> reachable 0 s \<and> joined s \<and> trace s = [])
   \<and> wreachable (winit 2) \<and> \<not> wjoined (winit 2)
   \<and> (\<exists>u w'. wstep (WRun u) (winit 2) = Some w')
   \<and> (\<exists>as w'. wexec as (winit 2) = Some w' \<and> wjoined w')"
proof -
  have r: "reachable MAX_val (init 0)" by (rule reach_init)
  have nj: "\<not> joined (init 0)" by (simp add: joined_def init_def)
  have wr: "wreachable (winit 2)" by (rule wreach_init)
  have wnj: "\<not> wjoined (winit 2)" by (simp add: wjoined_def winit_def)
  note t = all_tasks_terminate [OF MAX_val_nonneg r wr]
  from t wnj have f: "\<exists>u w'. wstep (WRun u) (winit 2) = Some w'" by blast
  from t have g: "\<exists>as w'. wexec as (winit 2) = Some w' \<and> wjoined w'" by blast
  from t nj have a: "\<exists>t s'. step MAX_val (Run t) (init 0) = Some s'" by blast
  from t have b: "\<exists>as s'. exec MAX_val as (init 0) = Some s' \<and> joined s'" by blast
  obtain s1 where s1: "exec MAX_val sched_full (init 0) = Some s1" and j1: "joined s1"
    using map_option_SomeD [OF sched_full_run] by blast
  from t s1 have c: "length sched_full \<le> potential MAX_val (init 0)" by blast
  obtain s where s: "exec 0 sched_zero (init 0) = Some s" and j: "joined s"
    using map_option_SomeD [OF sched_zero_run] by blast
  have r0: "reachable 0 s"
    using exec_reachable [OF reach_init s] .
  have z: "(0::int) \<le> 0" by simp
  from all_tasks_terminate [OF z r0 wr] have e: "trace s = []" by blast
  from MAX_val_nonneg r nj a b s1 j1 c s r0 j e wr wnj f g show ?thesis by simp
qed

text \<open>
  Claim C5. In every reachable state, spurious wake-ups included, a statement of thread
  \<open>t\<close> that emits something is executed only when \<open>t\<close> owns the turn, the counter is at
  most \<open>lim\<close> and \<open>t\<close> holds the mutex, and it emits the current counter value for
  \<open>t\<close>. A spurious wake-up changes neither the counter, nor the turn flag, nor the
  output; the woken thread's next statement is the evaluation of its guard, and when the
  guard holds (not its turn, counter at most \<open>lim\<close>) it blocks again without emitting.
  The same holds for the letter writer: a thread writes to the stream only when \<open>turn\<close>
  has its value and it holds the mutex; a spurious wake-up changes neither \<open>turn\<close> nor
  the stream, and the woken thread evaluates its guard next and blocks again when it is
  not its turn.
\<close>

theorem wakeup_never_acts_out_of_turn:
  assumes "0 \<le> lim" "reachable lim s" "wreachable w"
  shows "(\<forall>s'. step lim (Run t) s = Some s' \<and> outputs (trace s') \<noteq> outputs (trace s) \<longrightarrow>
            my_turn t s \<and> counter s \<le> lim \<and> lock s = Some t
            \<and> outputs (trace s') = outputs (trace s) @ [(t, counter s)])
         \<and> (\<forall>s'. spurious_wakeup t s = Some s' \<longrightarrow>
              pc_of t s' = Woken \<and> counter s' = counter s \<and> is_odd_turn s' = is_odd_turn s
              \<and> trace s' = trace s)
         \<and> (\<forall>s'. pc_of t s = Woken \<and> step lim (Run t) s = Some s' \<longrightarrow>
              pc_of t s' = AtGuard \<and> trace s' = trace s)
         \<and> (\<forall>s'. pc_of t s = AtGuard \<and> \<not> my_turn t s \<and> counter s \<le> lim
                \<and> step lim (Run t) s = Some s' \<longrightarrow>
              pc_of t s' = Waiting \<and> trace s' = trace s)
         \<and> (\<forall>w'. wstep (WRun u) w = Some w' \<and> fp w' \<noteq> fp w \<longrightarrow>
              turn w = turn_value u \<and> mutex w = Some u
              \<and> fp w' = fp w @ [char_of (ch_of u w)])
         \<and> (\<forall>w'. wspurious_wakeup u w = Some w' \<longrightarrow>
              wpc_of u w' = WWoken \<and> fp w' = fp w \<and> turn w' = turn w)
         \<and> (\<forall>w'. wpc_of u w = WWoken \<and> wstep (WRun u) w = Some w' \<longrightarrow>
              wpc_of u w' = WGuard \<and> fp w' = fp w \<and> turn w' = turn w)
         \<and> (\<forall>w'. wpc_of u w = WGuard \<and> turn w \<noteq> turn_value u
                \<and> wstep (WRun u) w = Some w' \<longrightarrow>
              wpc_of u w' = WWaiting \<and> fp w' = fp w \<and> turn w' = turn w)"
proof -
  have i: "inv lim s" using assms(1,2) by (rule reachable_inv [rotated])
  have wi: "winv w" using assms(3) by (rule wreachable_winv)
  have "my_turn t s \<and> counter s \<le> lim \<and> lock s = Some t
        \<and> outputs (trace s') = outputs (trace s) @ [(t, counter s)]"
    if "step lim (Run t) s = Some s'" "outputs (trace s') \<noteq> outputs (trace s)" for s'
    using run_changes_output [OF that] inv_acting [OF i, of t] inv_at_print [OF i, of t] by simp
  then have c1: "\<forall>s'. step lim (Run t) s = Some s' \<and> outputs (trace s') \<noteq> outputs (trace s) \<longrightarrow>
            my_turn t s \<and> counter s \<le> lim \<and> lock s = Some t
            \<and> outputs (trace s') = outputs (trace s) @ [(t, counter s)]"
    by blast
  have c2: "\<forall>s'. spurious_wakeup t s = Some s' \<longrightarrow>
              pc_of t s' = Woken \<and> counter s' = counter s \<and> is_odd_turn s' = is_odd_turn s
              \<and> trace s' = trace s"
    using spurious_wakeup_effect [of t s] by blast
  have c3: "\<forall>s'. pc_of t s = Woken \<and> step lim (Run t) s = Some s' \<longrightarrow>
              pc_of t s' = AtGuard \<and> trace s' = trace s"
    using run_from_woken [of t s lim] by blast
  have c4: "\<forall>s'. pc_of t s = AtGuard \<and> \<not> my_turn t s \<and> counter s \<le> lim
                \<and> step lim (Run t) s = Some s' \<longrightarrow>
              pc_of t s' = Waiting \<and> trace s' = trace s"
    using run_from_guard [of t s lim] by blast
  have "turn w = turn_value u \<and> mutex w = Some u \<and> fp w' = fp w @ [char_of (ch_of u w)]"
    if "wstep (WRun u) w = Some w'" "fp w' \<noteq> fp w" for w'
    using wrun_writes [OF that] winv_holds_turn [OF wi, of u] by simp
  then have c5: "\<forall>w'. wstep (WRun u) w = Some w' \<and> fp w' \<noteq> fp w \<longrightarrow>
              turn w = turn_value u \<and> mutex w = Some u
              \<and> fp w' = fp w @ [char_of (ch_of u w)]"
    by blast
  have c6: "\<forall>w'. wspurious_wakeup u w = Some w' \<longrightarrow>
              wpc_of u w' = WWoken \<and> fp w' = fp w \<and> turn w' = turn w"
    using wspurious_effect [of u w] by blast
  have c7: "\<forall>w'. wpc_of u w = WWoken \<and> wstep (WRun u) w = Some w' \<longrightarrow>
              wpc_of u w' = WGuard \<and> fp w' = fp w \<and> turn w' = turn w"
    using wrun_from_woken [of u w] by blast
  have c8: "\<forall>w'. wpc_of u w = WGuard \<and> turn w \<noteq> turn_value u
                \<and> wstep (WRun u) w = Some w' \<longrightarrow>
              wpc_of u w' = WWaiting \<and> fp w' = fp w \<and> turn w' = turn w"
    using wrun_from_guard [of u w] by blast
  show ?thesis
    by (intro conjI) (rule c1 c2 c3 c4 c5 c6 c7 c8)+
qed

theorem wakeup_never_acts_out_of_turn_witness:
  "0 \<le> MAX_val
   \<and> (case exec MAX_val sched_even_waits (init 1) of
        None \<Rightarrow> False
      | Some s1 \<Rightarrow>
          reachable MAX_val s1 \<and> pc_of EvenT s1 = Waiting
          \<and> (case spurious_wakeup EvenT s1 of
               None \<Rightarrow> False
             | Some s2 \<Rightarrow> pc_of EvenT s2 = Woken \<and> trace s2 = trace s1
                  \<and> counter s2 = counter s1 \<and> is_odd_turn s2 = is_odd_turn s1))
   \<and> (case exec MAX_val sched_spurious (init 1) of
        None \<Rightarrow> False
      | Some s3 \<Rightarrow>
          reachable MAX_val s3 \<and> pc_of EvenT s3 = AtGuard \<and> \<not> my_turn EvenT s3
          \<and> counter s3 \<le> MAX_val
          \<and> (case step MAX_val (Run EvenT) s3 of
               None \<Rightarrow> False
             | Some s4 \<Rightarrow> pc_of EvenT s4 = Waiting \<and> trace s4 = trace s3))
   \<and> (case wexec wsched_spurious (winit 1) of
        None \<Rightarrow> False
      | Some w3 \<Rightarrow>
          wreachable w3 \<and> wpc_of Smalls w3 = WGuard \<and> turn w3 \<noteq> turn_value Smalls
          \<and> (case wstep (WRun Smalls) w3 of
               None \<Rightarrow> False
             | Some w4 \<Rightarrow> wpc_of Smalls w4 = WWaiting \<and> fp w4 = fp w3))"
proof -
  from map_option_SomeD [OF wsched_spurious_run]
  obtain w3 where w3: "wexec wsched_spurious (winit 1) = Some w3"
    and h3: "wpc_of Smalls w3 = WGuard" "turn w3 \<noteq> turn_value Smalls"
    and "map_option (\<lambda>s. ()) (wstep (WRun Smalls) w3) = Some ()"
    by blast
  from map_option_SomeD [OF this(4)]
  obtain w4 where w4: "wstep (WRun Smalls) w3 = Some w4"
    by blast
  have wr: "wreachable w3"
    using wexec_reachable [OF wreach_init w3] .
  from map_option_SomeD [OF sched_even_waits_run]
  obtain s1 where s1: "exec MAX_val sched_even_waits (init 1) = Some s1"
    and w1: "pc_of EvenT s1 = Waiting"
    and "map_option (\<lambda>s. ()) (spurious_wakeup EvenT s1) = Some ()"
    by blast
  from map_option_SomeD [OF this(3)]
  obtain s2 where s2: "spurious_wakeup EvenT s1 = Some s2"
    by blast
  have r1: "reachable MAX_val s1"
    using exec_reachable [OF reach_init s1] .
  from map_option_SomeD [OF sched_spurious_run]
  obtain s3 where s3: "exec MAX_val sched_spurious (init 1) = Some s3"
    and g3: "pc_of EvenT s3 = AtGuard" "\<not> my_turn EvenT s3" "counter s3 \<le> MAX_val"
    and "map_option (\<lambda>s. ()) (step MAX_val (Run EvenT) s3) = Some ()"
    by blast
  from map_option_SomeD [OF this(5)]
  obtain s4 where s4: "step MAX_val (Run EvenT) s3 = Some s4"
    by blast
  have r3: "reachable MAX_val s3"
    using exec_reachable [OF reach_init s3] .
  from wakeup_never_acts_out_of_turn [OF MAX_val_nonneg r1 wr, of EvenT] s2
  have c2: "pc_of EvenT s2 = Woken \<and> trace s2 = trace s1
            \<and> counter s2 = counter s1 \<and> is_odd_turn s2 = is_odd_turn s1"
    by blast
  from wakeup_never_acts_out_of_turn [OF MAX_val_nonneg r3 wr, of EvenT] g3 s4
  have c4: "pc_of EvenT s4 = Waiting \<and> trace s4 = trace s3"
    by blast
  from wakeup_never_acts_out_of_turn [OF MAX_val_nonneg r3 wr, of _ Smalls] h3 w4
  have c5: "wpc_of Smalls w4 = WWaiting \<and> fp w4 = fp w3"
    by blast
  from MAX_val_nonneg s1 r1 w1 s2 c2 s3 r3 g3 s4 c4 w3 wr h3 w4 c5 show ?thesis by simp
qed

text \<open>
  Claim C6. In every run with \<open>0 \<le> lim\<close>, once both threads have returned the shared
  counter is exactly \<open>lim + 1\<close>. The counter starts at 1 and never exceeds
  \<open>lim + 1\<close> (so with \<open>MAX = 100\<close> the \<open>int\<close> of the source cannot overflow), every statement
  leaves it unchanged or adds exactly one, and it is incremented only while it is at most
  \<open>lim\<close>, so \<open>lim + 1\<close> is reached once and never left. With \<open>MAX = 100\<close> the
  counter ends at 101.
\<close>

theorem counter_ends_at_limit_plus_one:
  assumes "0 \<le> lim" "reachable lim s"
  shows "1 \<le> counter s \<and> counter s \<le> lim + 1
         \<and> (joined s \<longrightarrow> counter s = lim + 1)
         \<and> (\<forall>a s'. step lim a s = Some s' \<longrightarrow>
               counter s' = counter s \<or> (counter s' = counter s + 1 \<and> counter s \<le> lim))
         \<and> (lim = MAX_val \<and> joined s \<longrightarrow> counter s = 101)"
proof -
  have i: "inv lim s" using assms by (rule reachable_inv [rotated])
  then have "1 \<le> counter s \<and> counter s \<le> lim + 1" by (simp add: inv_def)
  moreover have "joined s \<longrightarrow> counter s = lim + 1" using inv_joined(1) [OF i] by blast
  moreover have "\<forall>a s'. step lim a s = Some s' \<longrightarrow>
               counter s' = counter s \<or> (counter s' = counter s + 1 \<and> counter s \<le> lim)"
    using counter_step [OF i] by blast
  ultimately show ?thesis by (simp add: MAX_val_def)
qed

theorem counter_ends_at_limit_plus_one_witness:
  "0 \<le> MAX_val
   \<and> (case exec MAX_val sched_full (init 0) of
        None \<Rightarrow> False
      | Some s \<Rightarrow> reachable MAX_val s \<and> joined s \<and> counter s = 101)"
proof -
  obtain s where s: "exec MAX_val sched_full (init 0) = Some s" and j: "joined s"
    using map_option_SomeD [OF sched_full_run] by blast
  have r: "reachable MAX_val s"
    using exec_reachable [OF reach_init s] .
  from counter_ends_at_limit_plus_one [OF MAX_val_nonneg r] j have "counter s = 101" by simp
  with MAX_val_nonneg s r j show ?thesis by simp
qed






text \<open>
  Claim C10, as amended. For every \<open>lim \<ge> 0\<close> and every reachable state of the polling
  variant: the lines printed so far are an initial part of the sequence 1, 2, \<dots>,
  \<open>lim\<close> in increasing order, odd numbers labelled by the odd role and even numbers by
  the even role; when both threads have returned they are the whole sequence, which is
  also what every finished run of the condition-variable variant emits; and a run in
  which both threads return exists from every reachable state. Nothing is said about
  runs in which a thread polls forever.
\<close>

theorem polling_variant_same_output:
  assumes "0 \<le> lim" "breachable lim b"
  shows "(\<exists>n. 0 \<le> n \<and> n \<le> lim \<and> printed b = round_robin n)
         \<and> (bjoined b \<longrightarrow> printed b = round_robin lim)
         \<and> (\<exists>ts b'. bexec lim ts b = Some b' \<and> bjoined b')
         \<and> (\<forall>s. bjoined b \<and> reachable lim s \<and> joined s \<longrightarrow> printed b = outputs (trace s))"
proof -
  have i: "binv lim b" using assms by (rule breachable_binv [rotated])
  have 1: "\<exists>n. 0 \<le> n \<and> n \<le> lim \<and> printed b = round_robin n"
    using binv_prefix [OF i] .
  have 2: "bjoined b \<longrightarrow> printed b = round_robin lim"
    using binv_joined [OF i] by blast
  have 3: "\<exists>ts b'. bexec lim ts b = Some b' \<and> bjoined b'"
    using bcompletes [OF i] .
  have 4: "\<forall>s. bjoined b \<and> reachable lim s \<and> joined s \<longrightarrow> printed b = outputs (trace s)"
  proof (intro allI impI, elim conjE)
    fix s assume "bjoined b" "reachable lim s" "joined s"
    then show "printed b = outputs (trace s)"
      using binv_joined [OF i] inv_joined(2) [OF reachable_inv [OF _ assms(1)], of s] assms(1)
      by (simp add: outputs_full_trace)
  qed
  from 1 2 3 4 show ?thesis by blast
qed

theorem polling_variant_same_output_witness:
  "0 \<le> MAX_val
   \<and> (case (bexec MAX_val bsched_full binit, exec MAX_val sched_blocking (init 0)) of
        (Some b, Some s) \<Rightarrow>
          breachable MAX_val b \<and> bjoined b \<and> reachable MAX_val s \<and> joined s
          \<and> printed b = outputs (trace s) \<and> printed b = round_robin MAX_val
      | _ \<Rightarrow> False)"
proof -
  obtain b where b: "bexec MAX_val bsched_full binit = Some b" and jb: "bjoined b"
    using map_option_SomeD [OF bsched_full_run] by blast
  obtain s where s: "exec MAX_val sched_blocking (init 0) = Some s" and j: "joined s"
    using map_option_SomeD [OF sched_blocking_run] by blast
  have rb: "breachable MAX_val b"
    using bexec_reachable [OF breach_init b] .
  have r: "reachable MAX_val s"
    using exec_reachable [OF reach_init s] .
  from polling_variant_same_output [OF MAX_val_nonneg rb] jb r j
  have "printed b = outputs (trace s)" "printed b = round_robin MAX_val"
    by blast+
  with MAX_val_nonneg b s rb r jb j show ?thesis by simp
qed

text \<open>
  Claim C10, as stated, fails. From the initial state of the polling variant the even
  thread executes lock, test, parity test and unlock, and the program is in its initial
  state again: nothing has been printed and no thread has returned. The even thread can
  go round this cycle any number of times (1000 times here) while the odd thread never
  gets the mutex, so there is no bound on the length of a run and a run that never prints
  1 to \<open>MAX\<close> exists. Every run of the condition-variable variant from its initial state
  has at most \<open>potential MAX_val (init 0)\<close> steps.
\<close>

theorem polling_variant_counterexample:
  "bexec MAX_val spin binit = Some binit
   \<and> bexec MAX_val (concat (replicate 1000 spin)) binit = Some binit
   \<and> potential MAX_val (init 0) < length (concat (replicate 1000 spin))
   \<and> printed binit = [] \<and> printed binit \<noteq> round_robin MAX_val \<and> \<not> bjoined binit"
proof -
  have "potential MAX_val (init 0) < length (concat (replicate 1000 spin))"
    by code_simp
  moreover have "printed binit = [] \<and> printed binit \<noteq> round_robin MAX_val \<and> \<not> bjoined binit"
    by code_simp
  ultimately show ?thesis
    using spin_cycle spin_forever [of 1000] by blast
qed

text \<open>
  Claim C9, as amended. Errors are fatal only during start-up, before any participant
  thread is created, and nothing is retried (no library call is made twice). In variant
  11 the run aborts with status 1 exactly when \<open>fopen\<close> or \<open>pthread_mutex_init\<close>
  fails; in variant 12 it aborts with status 1 when \<open>fopen\<close> fails, and starts both
  threads when \<open>fopen\<close> and both initialisations succeed; variant 09 has no start-up
  failure. An aborted start-up has created no thread.
\<close>

theorem startup_failures_abort_before_launch:
  "(fst (main_11 env) = Abort 1 \<longleftrightarrow> \<not> fopen_ok env \<or> mutex_init_rc env \<noteq> 0)
   \<and> (fst (main_11 env) = Abort 1 \<or> fst (main_11 env) = Launched)
   \<and> (fst (main_11 env) = Abort 1 \<longrightarrow> filter is_create (snd (main_11 env)) = [])
   \<and> distinct (snd (main_11 env))
   \<and> (\<not> fopen_ok env \<longrightarrow> main_12 env = (Abort 1, [Fopen, Perror ''fopen'']))
   \<and> (fopen_ok env \<and> mutex_init_rc env = 0 \<and> cond_init_rc env = 0 \<longrightarrow>
         fst (main_12 env) = Launched)
   \<and> distinct (snd (main_12 env))
   \<and> fst main_09 = Launched"
  by (simp add: main_11_def main_12_def main_09_def)

theorem startup_failures_abort_before_launch_witness:
  "\<not> fopen_ok env_fopen_fails
   \<and> fst (main_11 env_fopen_fails) = Abort 1
   \<and> filter is_create (snd (main_11 env_fopen_fails)) = []
   \<and> main_12 env_fopen_fails = (Abort 1, [Fopen, Perror ''fopen''])
   \<and> mutex_init_rc env_mutex_fails \<noteq> 0
   \<and> fst (main_11 env_mutex_fails) = Abort 1
   \<and> filter is_create (snd (main_11 env_mutex_fails)) = []"
  using startup_failures_abort_before_launch [of env_fopen_fails]
    startup_failures_abort_before_launch [of env_mutex_fails]
  by (simp add: env_fopen_fails_def env_mutex_fails_def)

text \<open>
  Claim C9, as stated, fails. A failure of \<open>fopen\<close> is fatal in variants 11 and 12
  although it is not a failure to construct the lock or the condition; and in variant 12
  a failing \<open>pthread_mutex_init\<close> does not abort the run: both threads are created.
\<close>

theorem only_primitive_failure_is_fatal_counterexample:
  "main_12 env_fopen_fails = (Abort 1, [Fopen, Perror ''fopen''])
   \<and> main_11 env_fopen_fails = (Abort 1, [Fopen, Perror ''File open failed''])
   \<and> main_12 env_mutex_fails
       = (Launched, [Fopen, MutexInit, CondInit,
                     PthreadCreate ''write_caps'', PthreadCreate ''write_smalls''])"
  by (simp add: main_11_def main_12_def env_fopen_fails_def env_mutex_fails_def)

end
